theory Spec2Isabelle
  imports Complex_Main "HOL-Library.AList" "HOL-Library.Multiset" "HOL-Library.Sublist"
    "HOL-Library.Product_Lexorder"
begin

text \<open>
  A model of the two source files of BaumEvolutionAlgorithms at hand, the population
  container \<open>BasePopulation\<close> and the driver \<open>VEGA\<close>, and proofs of what their
  specification says about them. The definitions come first, the theorems follow.
\<close>

section \<open>Python values, exceptions and the object store\<close>

text \<open>
  The exceptions the modelled code can raise. \<open>Raised\<close> stands for any exception
  of a collaborator (a phase of the algorithm, the objective function), named by a text.
\<close>

datatype error = TypeError | KeyError | Raised string

text \<open>
  The values held in the fields of an individual: \<open>None\<close>, an \<open>int\<close>, a
  \<open>float\<close> and, as \<open>PObj\<close>, the values of one further Python type that is not
  a number (a \<open>str\<close>, a list of bits, ...). A \<open>float\<close> is a finite one
  (\<open>PFloat\<close>, abstracted to a real number), one of the two infinities, or NaN.
\<close>

datatype 'v pyval = PNone | PInt int | PFloat real | PInf | PNegInf | PNaN | PObj 'v

text \<open>
  An individual is a \<open>dict\<close> with string keys: an association list in insertion
  order. \<open>d[k]\<close> raises \<open>KeyError\<close> on a missing key; \<open>d[k] = v\<close> keeps the
  position of a key already there and appends a new one.
\<close>

type_synonym 'v individ = "(string \<times> 'v pyval) list"

definition getitem :: "'v individ \<Rightarrow> string \<Rightarrow> error + 'v pyval" where
  "getitem d k = (case map_of d k of None \<Rightarrow> Inl KeyError | Some v \<Rightarrow> Inr v)"

definition setitem :: "'v individ \<Rightarrow> string \<Rightarrow> 'v pyval \<Rightarrow> 'v individ" where
  "setitem d k v = AList.update k v d"

text \<open>\<open>dict.fromkeys(ks)\<close>: a new dict with every key of \<open>ks\<close> set to \<open>None\<close>.\<close>

definition fromkeys :: "string list \<Rightarrow> 'v individ" where
  "fromkeys ks = fold (\<lambda>k d. setitem d k PNone) ks []"

text \<open>
  A population is a Python \<open>list\<close> of references to \<open>dict\<close> objects, and
  \<open>reset_idx_individ\<close> writes through these references. The store holds the
  objects: an address is an index into it, and a new object is allocated at its end.
\<close>

type_synonym addr = nat

type_synonym 'v heap = "'v individ list"

section \<open>BasePopulation (ga/populations/base\_population.py)\<close>

text \<open>
  \<open>class BasePopulation(ABC, list)\<close>: the list's contents (\<open>items\<close>, references
  into the store) and the four attributes of the class. The abstract methods
  \<open>set_params\<close>, \<open>fill\<close> and \<open>get_empty_copy\<close> have no body in this class.
\<close>

record BasePopulation =
  items :: "addr list"
  is_sorted :: bool
  num_individ :: "int option"
  gens :: "(real \<times> real \<times> real) list option"
  input_population :: "real list list option"

text \<open>The individuals read through the references, in iteration order.\<close>

definition individuals :: "'v heap \<Rightarrow> BasePopulation \<Rightarrow> 'v individ list" where
  "individuals h self = map (\<lambda>r. h ! r) (items self)"

text \<open>Every reference of the population points to an allocated object.\<close>

definition valid_refs :: "'v heap \<Rightarrow> BasePopulation \<Rightarrow> bool" where
  "valid_refs h self = list_all (\<lambda>r. r < length h) (items self)"

subsection \<open>add\_dict\<close>

text \<open>
  \<open>def add_dict(self, **data): self.append(data)\<close>. The keyword arguments arrive as a
  new dict object, which is appended.
\<close>

definition add_dict :: "'v individ \<Rightarrow> 'v heap \<Rightarrow> BasePopulation \<Rightarrow> 'v heap \<times> BasePopulation" where
  "add_dict data h self = (h @ [data], self\<lparr>items := items self @ [length h]\<rparr>)"

subsection \<open>sort\_by\_dict\<close>

text \<open>
  \<open>self.sort(key=lambda d: d[key_dict], reverse=reverse)\<close>. Python's \<open>list.sort\<close>
  first computes the key of every element, then sorts stably by \<open><\<close> on the keys;
  with \<open>reverse\<close> the order is descending and elements with equal keys still keep
  their original order.
\<close>

definition list_sort :: "('a \<Rightarrow> 'k::linorder) \<Rightarrow> bool \<Rightarrow> 'a list \<Rightarrow> 'a list" where
  "list_sort key reverse xs =
     (if reverse then rev (sort_key key (rev xs)) else sort_key key xs)"

text \<open>
  Which keys \<open><\<close> compares: numbers (\<open>int\<close> and \<open>float\<close>) among themselves by
  value, and the values of the further type among themselves by its order. Comparing
  \<open>None\<close> with anything, or a number with a value of the further type, raises
  \<open>TypeError\<close>. NaN is a number, but every \<open><\<close> and \<open><=\<close> with NaN is false.

  \<open>num_of\<close> gives the place of a number other than NaN in the order of the numbers:
  the negative infinity comes before and the positive infinity after every finite
  number (pairs are ordered lexicographically).
\<close>

fun num_of :: "'v pyval \<Rightarrow> (int \<times> real) option" where
  "num_of (PInt i) = Some (0, real_of_int i)"
| "num_of (PFloat x) = Some (0, x)"
| "num_of PInf = Some (1, 0)"
| "num_of PNegInf = Some (- 1, 0)"
| "num_of _ = None"


fun obj_of :: "'v pyval \<Rightarrow> 'v option" where
  "obj_of (PObj v) = Some v"
| "obj_of _ = None"

text \<open>The keys \<open>d[key_dict]\<close> of all elements; the first missing key raises.\<close>

fun keys_of :: "'v heap \<Rightarrow> string \<Rightarrow> addr list \<Rightarrow> error + 'v pyval list" where
  "keys_of h key_dict [] = Inr []"
| "keys_of h key_dict (r # rs) =
     (case getitem (h ! r) key_dict of
        Inl e \<Rightarrow> Inl e
      | Inr v \<Rightarrow> (case keys_of h key_dict rs of Inl e \<Rightarrow> Inl e | Inr vs \<Rightarrow> Inr (v # vs)))"



text \<open>
  \<open>d1[key_dict] <= d2[key_dict]\<close> for two stored individuals: true when both keys are
  there, are comparable and are in this order.
\<close>

definition py_le :: "('v::linorder) pyval \<Rightarrow> 'v pyval \<Rightarrow> bool" where
  "py_le x y =
     (case (num_of x, num_of y) of
        (Some a, Some b) \<Rightarrow> a \<le> b
      | _ \<Rightarrow> (case (obj_of x, obj_of y) of (Some a, Some b) \<Rightarrow> a \<le> b | _ \<Rightarrow> False))"

definition key_le :: "('v::linorder) heap \<Rightarrow> string \<Rightarrow> addr \<Rightarrow> addr \<Rightarrow> bool" where
  "key_le h key_dict a b =
     (case (getitem (h ! a) key_dict, getitem (h ! b) key_dict) of
        (Inr x, Inr y) \<Rightarrow> py_le x y
      | _ \<Rightarrow> False)"



subsection \<open>reset\_idx\_individ\<close>

text \<open>
  \<open>i = 0; for individ in self: individ['idx_individ'] = i; i += 1\<close>. Each step writes
  into the object the reference points to.
\<close>

fun reset_loop :: "int \<Rightarrow> addr list \<Rightarrow> 'v heap \<Rightarrow> 'v heap" where
  "reset_loop i [] h = h"
| "reset_loop i (r # rs) h =
     reset_loop (i + 1) rs (h[r := setitem (h ! r) ''idx_individ'' (PInt i)])"

definition reset_idx_individ :: "'v heap \<Rightarrow> BasePopulation \<Rightarrow> 'v heap \<times> BasePopulation" where
  "reset_idx_individ h self = (reset_loop 0 (items self) h, self)"

text \<open>The field \<open>idx_individ\<close> of the individuals, read in iteration order.\<close>

definition idx_individs :: "'v heap \<Rightarrow> BasePopulation \<Rightarrow> (error + 'v pyval) list" where
  "idx_individs h self = map (\<lambda>d. getitem d ''idx_individ'') (individuals h self)"

subsection \<open>get\_empty\_individ\<close>

text \<open>
  \<open>if len(self) > 0: return dict.fromkeys(self[0].keys()) else: return None\<close>. The
  result comes with the store and the population as the call leaves them.
\<close>

definition get_empty_individ ::
  "'v heap \<Rightarrow> BasePopulation \<Rightarrow> 'v individ option \<times> 'v heap \<times> BasePopulation" where
  "get_empty_individ h self =
     (if length (items self) > 0
      then (Some (fromkeys (map fst (h ! (items self ! 0)))), h, self)
      else (None, h, self))"

section \<open>VEGA (vega.py)\<close>

subsection \<open>The objective function\<close>

text \<open>
  The user's objective function is a Python callable that returns a scalar or a sequence
  of numbers. It is written either for one argument, \<open>my_func(gens)\<close>, or for two,
  \<open>my_func(input_data, gens)\<close>; calling a two-argument function with a single
  argument raises \<open>TypeError\<close>, and so does \<open>len\<close> of a scalar. Numbers are
  abstracted to reals.
\<close>

datatype retval = Scalar real | Seq "real list"

datatype 'd obj_function =
    OneArg "real list \<Rightarrow> error + retval"
  | TwoArg "'d \<Rightarrow> real list \<Rightarrow> error + retval"

fun call1 :: "'d obj_function \<Rightarrow> real list \<Rightarrow> error + retval" where
  "call1 (OneArg f) xs = f xs"
| "call1 (TwoArg f) xs = Inl TypeError"

fun len :: "retval \<Rightarrow> error + int" where
  "len (Seq ys) = Inr (int (length ys))"
| "len (Scalar y) = Inl TypeError"

subsection \<open>VEGA.\_\_init\_\_\<close>

text \<open>The attributes of a \<open>VEGA\<close> object, as \<open>__init__\<close> sets them.\<close>

record ('d, 'pen) VEGA =
  num_generations :: int
  num_individ :: int
  gens :: "(real \<times> real \<times> real) list"
  obj_function :: "'d obj_function"
  obj_value :: "real option"
  input_data :: "'d option"
  penalty :: "'pen option"
  conditions :: "string list option"
  is_gray :: bool
  children_percent :: real
  early_stop :: int
  input_population :: "real list list option"
  tournament_size :: int
  mutation_lvl :: "string + real"
  transfer_parents :: string
  is_print :: bool

text \<open>
  \<open>__init__\<close> copies its arguments (primed here), but for
  \<open>self.early_stop = early_stop if early_stop is not None else num_generations\<close>.
\<close>

definition VEGA_init ::
  "int \<Rightarrow> int \<Rightarrow> (real \<times> real \<times> real) list \<Rightarrow> 'd obj_function \<Rightarrow> real option \<Rightarrow> 'd option
   \<Rightarrow> 'pen option \<Rightarrow> string list option \<Rightarrow> bool \<Rightarrow> real \<Rightarrow> int option
   \<Rightarrow> real list list option \<Rightarrow> int \<Rightarrow> string + real \<Rightarrow> string \<Rightarrow> bool \<Rightarrow> ('d, 'pen) VEGA" where
  "VEGA_init num_generations' num_individ' gens' obj_function' obj_value' input_data'
     penalty' conditions' is_gray' children_percent' early_stop' input_population'
     tournament_size' mutation_lvl' transfer_parents' is_print' =
   \<lparr>VEGA.num_generations = num_generations',
    VEGA.num_individ = num_individ',
    VEGA.gens = gens',
    obj_function = obj_function',
    obj_value = obj_value',
    input_data = input_data',
    penalty = penalty',
    conditions = conditions',
    is_gray = is_gray',
    VEGA.children_percent = children_percent',
    VEGA.early_stop = (case early_stop' of Some e \<Rightarrow> e | None \<Rightarrow> num_generations'),
    VEGA.input_population = input_population',
    tournament_size = tournament_size',
    mutation_lvl = mutation_lvl',
    transfer_parents = transfer_parents',
    is_print = is_print'\<rparr>"

subsection \<open>GaData and the classes of the ga package\<close>

text \<open>
  Modelled from the spec: the class \<open>MultiGaData\<close> (imported from the \<open>ga\<close>
  package, which is not among the sources). The spec gives it the current population
  and the scalar run state \<open>num_generation\<close>, \<open>num_generation_no_improve\<close>,
  \<open>early_stop\<close> and \<open>children_percent\<close>; \<open>optimize\<close> also reads its
  \<open>num_generations\<close>. The constructor stores its three arguments; a new object has
  no population and both counters at zero. Whatever else the object holds is the
  extension of the record.
\<close>

record 'p GaData =
  num_generations :: int
  children_percent :: real
  early_stop :: int
  num_generation :: int
  num_generation_no_improve :: int
  population :: "'p option"

definition MultiGaData :: "int \<Rightarrow> real \<Rightarrow> int \<Rightarrow> 'z \<Rightarrow> ('p, 'z) GaData_scheme" where
  "MultiGaData num_generations' children_percent' early_stop' rest =
     \<lparr>GaData.num_generations = num_generations',
      GaData.children_percent = children_percent',
      GaData.early_stop = early_stop',
      num_generation = 0,
      num_generation_no_improve = 0,
      population = None,
      \<dots> = rest\<rparr>"

text \<open>
  A phase of the algorithm is an object with one method, \<open>execute(ga_data)\<close>, which
  works on the \<open>GaData\<close> object in place and may raise.
\<close>

type_synonym ('p, 'z) phase = "('p, 'z) GaData_scheme \<Rightarrow> error + ('p, 'z) GaData_scheme"

text \<open>
  The other classes that \<open>optimize\<close> uses are not among the sources either. They are
  parameters of the model: the constructors of the two population classes with
  \<open>set_params\<close> and \<open>fill\<close>, the constructors of the five phases with the
  arguments \<open>optimize\<close> gives them, and the methods \<open>update\<close> and
  \<open>print_best_solution\<close> of \<open>GaData\<close>. Each of them may raise.
\<close>

record ('d, 'pen, 'p, 'z) ga =
  BinaryGrayPopulation :: "error + 'p"
  BinaryPopulation :: "error + 'p"
  set_params :: "int \<Rightarrow> (real \<times> real \<times> real) list \<Rightarrow> real list list option \<Rightarrow> 'p \<Rightarrow> error + 'p"
  fill :: "'p \<Rightarrow> error + 'p"
  VEGAHyperbolaFitness ::
    "'d obj_function \<Rightarrow> real option \<Rightarrow> 'd option \<Rightarrow> 'pen option \<Rightarrow> string list option
     \<Rightarrow> error + ('p, 'z) phase"
  VEGATournamentSelection :: "int \<Rightarrow> error + ('p, 'z) phase"
  OnePointCrossover :: "error + ('p, 'z) phase"
  BinStringMutation :: "string + real \<Rightarrow> error + ('p, 'z) phase"
  MultiNewGeneration :: "string \<Rightarrow> error + ('p, 'z) phase"
  update :: "('p, 'z) phase"
  print_best_solution :: "('p, 'z) GaData_scheme \<Rightarrow> error + unit"

text \<open>The five phase objects that \<open>optimize\<close> holds in local variables.\<close>

record ('p, 'z) operators =
  selection :: "('p, 'z) phase"
  cross :: "('p, 'z) phase"
  mutation :: "('p, 'z) phase"
  new_generation :: "('p, 'z) phase"
  fitness_func :: "('p, 'z) phase"

text \<open>
  Modelled from the spec: \<open>GaData.update()\<close>, of which the spec says that it resorts
  the population by score, compares the current best score with the historical best,
  increments \<open>num_generation_no_improve\<close> if there is no improvement and resets it
  to 0 otherwise, truncates the population, advances \<open>num_generation\<close>, and raises
  if the population is empty. What the spec leaves to the class are parameters: the
  test for an empty population, the resorting and truncation, and the comparison of the
  scores.
\<close>

definition update_spec ::
  "('p \<Rightarrow> bool) \<Rightarrow> ('p \<Rightarrow> 'p) \<Rightarrow> (('p, 'z) GaData_scheme \<Rightarrow> bool) \<Rightarrow> ('p, 'z) phase" where
  "update_spec is_empty resort improved ga_data =
     (case population ga_data of
        None \<Rightarrow> Inl (Raised ''no population'')
      | Some p \<Rightarrow>
          if is_empty p then Inl (Raised ''empty population'')
          else Inr (ga_data
            \<lparr>population := Some (resort p),
             num_generation_no_improve :=
               (if improved ga_data then 0 else num_generation_no_improve ga_data + 1),
             num_generation := num_generation ga_data + 1\<rparr>))"

text \<open>
  A phase that leaves the counters and thresholds of \<open>GaData\<close> alone: by the spec,
  only \<open>update\<close> writes them.
\<close>

definition keeps_counters :: "('p, 'z) phase \<Rightarrow> bool" where
  "keeps_counters f =
     (\<forall>g g'. f g = Inr g' \<longrightarrow>
        num_generation_no_improve g' = num_generation_no_improve g
      \<and> num_generation g' = num_generation g
      \<and> GaData.early_stop g' = GaData.early_stop g
      \<and> GaData.num_generations g' = GaData.num_generations g)"

subsection \<open>The calls of a run\<close>

text \<open>
  To state in which order \<open>optimize\<close> calls its collaborators, the model logs every
  call: the probe of the objective function with its argument, the constructors by the
  name of the class, and the methods. A computation takes the log so far and returns the
  new log with an exception or a value; an exception ends the run.
\<close>

datatype event =
    Probe "real list"
  | Construct string
  | SetParams
  | Fill
  | Fitness
  | Update
  | Selection
  | Crossover
  | Mutation
  | NewGeneration
  | PrintBest

type_synonym 'a traced = "event list \<Rightarrow> event list \<times> (error + 'a)"

definition ret :: "'a \<Rightarrow> 'a traced" where
  "ret x tr = (tr, Inr x)"

definition call :: "event \<Rightarrow> error + 'a \<Rightarrow> 'a traced" where
  "call ev result tr = (tr @ [ev], result)"

definition and_then :: "'a traced \<Rightarrow> ('a \<Rightarrow> 'b traced) \<Rightarrow> 'b traced" where
  "and_then m f tr = (case m tr of (tr', Inl e) \<Rightarrow> (tr', Inl e) | (tr', Inr x) \<Rightarrow> f x tr')"

subsection \<open>VEGA.optimize\<close>

text \<open>
  \<open>num_objectives = len(self.obj_function([0]*len(self.gens))) if self.conditions is None
  else self.conditions.count('optimize')\<close>
\<close>

definition num_objectives_of :: "('d, 'pen) VEGA \<Rightarrow> int traced" where
  "num_objectives_of self =
     (case conditions self of
        None \<Rightarrow>
          and_then
            (call (Probe (replicate (length (VEGA.gens self)) 0))
               (call1 (obj_function self) (replicate (length (VEGA.gens self)) 0)))
            (\<lambda>y. (\<lambda>tr. (tr, len y)))
      | Some c \<Rightarrow> ret (int (count_list c ''optimize'')))"

text \<open>The body of the main loop, lines 97 to 102.\<close>

definition generation ::
  "('p, 'z) phase \<Rightarrow> ('p, 'z) operators \<Rightarrow> ('p, 'z) GaData_scheme \<Rightarrow> ('p, 'z) GaData_scheme traced" where
  "generation upd ops ga_data =
     and_then (call Selection (selection ops ga_data)) (\<lambda>ga_data.
     and_then (call Crossover (cross ops ga_data)) (\<lambda>ga_data.
     and_then (call Mutation (mutation ops ga_data)) (\<lambda>ga_data.
     and_then (call NewGeneration (new_generation ops ga_data)) (\<lambda>ga_data.
     and_then (call Fitness (fitness_func ops ga_data)) (\<lambda>ga_data.
     call Update (upd ga_data))))))"

text \<open>
  \<open>for i in range(1, ga_data.num_generations): ...; if ga_data.num_generation_no_improve >
  ga_data.early_stop: break\<close>, by recursion over the values of \<open>i\<close> still to come.
\<close>

fun main_loop ::
  "('p, 'z) phase \<Rightarrow> ('p, 'z) operators \<Rightarrow> int list \<Rightarrow> ('p, 'z) GaData_scheme
   \<Rightarrow> ('p, 'z) GaData_scheme traced" where
  "main_loop upd ops [] ga_data = ret ga_data"
| "main_loop upd ops (i # rest) ga_data =
     and_then (generation upd ops ga_data) (\<lambda>ga_data.
       if num_generation_no_improve ga_data > GaData.early_stop ga_data then ret ga_data
       else main_loop upd ops rest ga_data)"

definition optimize ::
  "('d, 'pen, 'p, 'z) ga \<Rightarrow> 'z \<Rightarrow> ('d, 'pen) VEGA \<Rightarrow> ('p, 'z) GaData_scheme traced" where
  "optimize ga rest self =
     and_then (num_objectives_of self) (\<lambda>num_objectives.
     and_then (call (Construct ''MultiGaData'')
        (Inr (MultiGaData (VEGA.num_generations self) (VEGA.children_percent self)
                (VEGA.early_stop self) rest))) (\<lambda>ga_data.
     and_then (if is_gray self then call (Construct ''BinaryGrayPopulation'') (BinaryGrayPopulation ga)
               else call (Construct ''BinaryPopulation'') (BinaryPopulation ga)) (\<lambda>population.
     and_then (call SetParams
        (set_params ga (VEGA.num_individ self) (VEGA.gens self) (VEGA.input_population self)
           population)) (\<lambda>population.
     and_then (call (Construct ''VEGAHyperbolaFitness'')
        (VEGAHyperbolaFitness ga (obj_function self) (obj_value self) (input_data self)
           (penalty self) (conditions self))) (\<lambda>fitness_func.
     and_then (call (Construct ''VEGATournamentSelection'')
        (VEGATournamentSelection ga num_objectives)) (\<lambda>selection.
     and_then (call (Construct ''OnePointCrossover'') (OnePointCrossover ga)) (\<lambda>cross.
     and_then (call (Construct ''BinStringMutation'')
        (BinStringMutation ga (mutation_lvl self))) (\<lambda>mutation.
     and_then (call (Construct ''MultiNewGeneration'')
        (MultiNewGeneration ga (transfer_parents self))) (\<lambda>new_generation.
     and_then (call Fill (fill ga population)) (\<lambda>population.
     and_then (call Fitness (fitness_func (ga_data\<lparr>population := Some population\<rparr>))) (\<lambda>ga_data.
     and_then (call Update (update ga ga_data)) (\<lambda>ga_data.
     and_then (main_loop (update ga)
        \<lparr>selection = selection, cross = cross, mutation = mutation,
         new_generation = new_generation, fitness_func = fitness_func\<rparr>
        [1..GaData.num_generations ga_data - 1] ga_data) (\<lambda>ga_data.
     and_then (if is_print self then call PrintBest (print_best_solution ga ga_data)
               else ret ()) (\<lambda>_.
     ret ga_data))))))))))))))"

subsection \<open>The expected order of the calls\<close>

text \<open>
  The calls of one generation of the main loop and of the initial generation, and the
  calls that \<open>optimize\<close> makes before the initial generation: the probe, when there
  are no conditions, and the constructors.
\<close>

definition generation_events :: "event list" where
  "generation_events = [Selection, Crossover, Mutation, NewGeneration, Fitness, Update]"

definition initial_events :: "event list" where
  "initial_events = [Fill, Fitness, Update]"

definition setup_events :: "('d, 'pen) VEGA \<Rightarrow> event list" where
  "setup_events self =
     (case conditions self of
        None \<Rightarrow> [Probe (replicate (length (VEGA.gens self)) 0)]
      | Some c \<Rightarrow> [])
     @ [Construct ''MultiGaData'',
        Construct (if is_gray self then ''BinaryGrayPopulation'' else ''BinaryPopulation''),
        SetParams,
        Construct ''VEGAHyperbolaFitness'',
        Construct ''VEGATournamentSelection'',
        Construct ''OnePointCrossover'',
        Construct ''BinStringMutation'',
        Construct ''MultiNewGeneration'']"

text \<open>The log of a run that returns after \<open>k\<close> generations of the main loop.\<close>

definition complete_run :: "('d, 'pen) VEGA \<Rightarrow> nat \<Rightarrow> event list" where
  "complete_run self k =
     setup_events self @ initial_events @ concat (replicate k generation_events)
       @ (if is_print self then [PrintBest] else [])"

text \<open>
  For the proofs: a computation logs within a set of event lists when it appends one of
  them if it returns and a prefix of one of them if it raises; and it extends the log
  when it only appends to it.
\<close>

definition cat :: "event list set \<Rightarrow> event list set \<Rightarrow> event list set" where
  "cat L M = {a @ b | a b. a \<in> L \<and> b \<in> M}"

definition traces :: "'a traced \<Rightarrow> event list set \<Rightarrow> bool" where
  "traces m L =
     (\<forall>tr tr' r. m tr = (tr', r) \<longrightarrow>
        (\<exists>es. tr' = tr @ es
           \<and> (case r of Inr _ \<Rightarrow> es \<in> L | Inl _ \<Rightarrow> (\<exists>fs\<in>L. prefix es fs))))"

definition extends :: "'a traced \<Rightarrow> bool" where
  "extends m = (\<forall>tr. prefix tr (fst (m tr)))"

subsection \<open>The sequencing of the driver in the words of the specification\<close>

text \<open>
  For the comparison with \<open>optimize\<close>: the specification (4.8) has the driver
  execute named phases one after the other on the \<open>GaData\<close>, and an exception of a
  phase ends the run. \<open>spec_in_order\<close> executes a list of named phases in order,
  each on the state the one before has left. The phases of an evolving step are
  Selection, Crossover, Mutation, NewGeneration, Fitness and \<open>GaData.update()\<close>;
  those of the initial generation are \<open>fill\<close>, whose result becomes the population
  of \<open>GaData\<close>, Fitness and \<open>GaData.update()\<close>. \<open>spec_evolving\<close> repeats
  the evolving step at most \<open>n\<close> times and stops after a step that leaves
  \<open>num_generation_no_improve\<close> above \<open>early_stop\<close>. \<open>spec_driver\<close> is the
  initial generation, then the evolving steps of the generations that remain of
  \<open>num_generations\<close>, then the printing of the best solution if it is asked for.
\<close>

fun spec_in_order :: "(event \<times> ('s \<Rightarrow> error + 's)) list \<Rightarrow> 's \<Rightarrow> 's traced" where
  "spec_in_order [] s tr = (tr, Inr s)"
| "spec_in_order ((ev, f) # rest) s tr =
     (case f s of
        Inl e \<Rightarrow> (tr @ [ev], Inl e)
      | Inr s' \<Rightarrow> spec_in_order rest s' (tr @ [ev]))"

definition spec_generation_phases ::
  "('p, 'z) phase \<Rightarrow> ('p, 'z) operators \<Rightarrow> (event \<times> ('p, 'z) phase) list" where
  "spec_generation_phases upd ops =
     [(Selection, selection ops), (Crossover, cross ops), (Mutation, mutation ops),
      (NewGeneration, new_generation ops), (Fitness, fitness_func ops), (Update, upd)]"

definition spec_initial_phases ::
  "('d, 'pen, 'p, 'z) ga \<Rightarrow> 'p \<Rightarrow> ('p, 'z) phase \<Rightarrow> (event \<times> ('p, 'z) phase) list" where
  "spec_initial_phases ga p fitness =
     [(Fill, \<lambda>g. case fill ga p of Inl e \<Rightarrow> Inl e | Inr p' \<Rightarrow> Inr (g\<lparr>population := Some p'\<rparr>)),
      (Fitness, fitness),
      (Update, update ga)]"

fun spec_evolving ::
  "(event \<times> ('p, 'z) phase) list \<Rightarrow> nat \<Rightarrow> ('p, 'z) GaData_scheme
   \<Rightarrow> ('p, 'z) GaData_scheme traced" where
  "spec_evolving phases 0 g tr = (tr, Inr g)"
| "spec_evolving phases (Suc n) g tr =
     (case spec_in_order phases g tr of
        (tr', Inl e) \<Rightarrow> (tr', Inl e)
      | (tr', Inr g') \<Rightarrow>
          if num_generation_no_improve g' > GaData.early_stop g' then (tr', Inr g')
          else spec_evolving phases n g' tr')"

definition spec_driver ::
  "('d, 'pen, 'p, 'z) ga \<Rightarrow> ('p, 'z) operators \<Rightarrow> 'p \<Rightarrow> bool \<Rightarrow> ('p, 'z) GaData_scheme
   \<Rightarrow> ('p, 'z) GaData_scheme traced" where
  "spec_driver ga ops p pr g tr =
     (case spec_in_order (spec_initial_phases ga p (fitness_func ops)) g tr of
        (tr1, Inl e) \<Rightarrow> (tr1, Inl e)
      | (tr1, Inr g1) \<Rightarrow>
          (case spec_evolving (spec_generation_phases (update ga) ops)
                  (nat (GaData.num_generations g1 - 1)) g1 tr1 of
             (tr2, Inl e) \<Rightarrow> (tr2, Inl e)
           | (tr2, Inr g2) \<Rightarrow>
               if pr then (tr2 @ [PrintBest],
                           case print_best_solution ga g2 of Inl e \<Rightarrow> Inl e | Inr u \<Rightarrow> Inr g2)
               else (tr2, Inr g2)))"

subsection \<open>Phases that keep the counters\<close>

definition ops_keep_counters :: "('p, 'z) operators \<Rightarrow> bool" where
  "ops_keep_counters ops =
     (keeps_counters (selection ops) \<and> keeps_counters (cross ops)
      \<and> keeps_counters (mutation ops) \<and> keeps_counters (new_generation ops)
      \<and> keeps_counters (fitness_func ops))"

definition ga_keeps_counters :: "('d, 'pen, 'p, 'z) ga \<Rightarrow> bool" where
  "ga_keeps_counters ga =
     ((\<forall>f v d p c ph. VEGAHyperbolaFitness ga f v d p c = Inr ph \<longrightarrow> keeps_counters ph)
      \<and> (\<forall>n ph. VEGATournamentSelection ga n = Inr ph \<longrightarrow> keeps_counters ph)
      \<and> (\<forall>ph. OnePointCrossover ga = Inr ph \<longrightarrow> keeps_counters ph)
      \<and> (\<forall>l ph. BinStringMutation ga l = Inr ph \<longrightarrow> keeps_counters ph)
      \<and> (\<forall>t ph. MultiNewGeneration ga t = Inr ph \<longrightarrow> keeps_counters ph))"

subsection \<open>A run on a constant objective\<close>

text \<open>
  The example of the spec's early-stop property: a single gene \<open>(0, 7, 1)\<close> and an
  objective function that returns the same value for every individual. All individuals
  then have the same score in every generation, so a stand-in for the \<open>ga\<close> package
  is enough for the driver: phases that leave \<open>GaData\<close> as it is, and
  \<open>update\<close> as modelled above, where only the first generation (which sets the best
  individual) counts as an improvement. \<open>after_init\<close> is the \<open>GaData\<close> of this run
  when the main loop starts.
\<close>

definition idle_ops :: "(unit, unit) operators" where
  "idle_ops = \<lparr>selection = Inr, cross = Inr, mutation = Inr, new_generation = Inr,
     fitness_func = Inr\<rparr>"

definition first_only_update :: "(unit, unit) phase" where
  "first_only_update = update_spec (\<lambda>p. False) (\<lambda>p. p) (\<lambda>g. num_generation g = 0)"

definition idle_ga :: "(unit, unit, unit, unit) ga" where
  "idle_ga = \<lparr>BinaryGrayPopulation = Inr (), BinaryPopulation = Inr (),
     set_params = (\<lambda>n gs ip p. Inr p), fill = Inr,
     VEGAHyperbolaFitness = (\<lambda>f v d p c. Inr Inr),
     VEGATournamentSelection = (\<lambda>n. Inr Inr),
     OnePointCrossover = Inr Inr,
     BinStringMutation = (\<lambda>l. Inr Inr),
     MultiNewGeneration = (\<lambda>t. Inr Inr),
     update = first_only_update,
     print_best_solution = (\<lambda>g. Inr ())\<rparr>"

definition constant_run :: "int \<Rightarrow> int option \<Rightarrow> (unit, unit) VEGA" where
  "constant_run n es =
     VEGA_init n 4 [(0, 7, 1)] (OneArg (\<lambda>xs. Inr (Seq [1]))) None None None None False
       (19 / 20) es None 5 (Inl ''normal'') ''best'' False"

definition after_init :: "int \<Rightarrow> int \<Rightarrow> (unit, unit) GaData_scheme" where
  "after_init n es = \<lparr>GaData.num_generations = n, GaData.children_percent = 19 / 20,
     GaData.early_stop = es, num_generation = 1, num_generation_no_improve = 0,
     population = Some ()\<rparr>"

section \<open>Properties of BasePopulation\<close>

subsection \<open>add\_dict\<close>

lemma individuals_add_dict:
  assumes "valid_refs h self"
  shows "individuals (fst (add_dict data h self)) (snd (add_dict data h self))
           = individuals h self @ [data]"
proof -
  have "\<forall>r \<in> set (items self). r < length h"
    using assms by (simp add: valid_refs_def list_all_iff)
  then have "map (\<lambda>r. (h @ [data]) ! r) (items self) = map (\<lambda>r. h ! r) (items self)"
    by (simp add: nth_append)
  then show ?thesis
    by (simp add: individuals_def add_dict_def)
qed

text \<open>
  C8. Adding an individual appends exactly that one record at the end: the population is
  one longer, its last individual is the given record, and the individuals held before
  are the same objects with the same contents in the same order; no object of the store
  is changed.
\<close>

theorem add_dict_appends:
  assumes "valid_refs h self"
    and "add_dict data h self = (h', self')"
  shows "length (items self') = length (items self) + 1
       \<and> individuals h' self' = individuals h self @ [data]
       \<and> last (individuals h' self') = data
       \<and> take (length (items self)) (items self') = items self
       \<and> take (length h) h' = h
       \<and> valid_refs h' self'"
proof -
  have h': "h' = fst (add_dict data h self)" and s': "self' = snd (add_dict data h self)"
    using assms(2) by simp_all
  have ind: "individuals h' self' = individuals h self @ [data]"
    unfolding h' s' using assms(1) by (rule individuals_add_dict)
  have "valid_refs h' self'"
    using assms(1) unfolding h' s'
    by (auto simp: valid_refs_def add_dict_def list_all_iff)
  with ind show ?thesis
    unfolding h' s' by (simp add: add_dict_def)
qed

theorem add_dict_appends_witness:
  "valid_refs ([[(''score'', PFloat 1)]] :: unit heap) \<lparr>items = [0], is_sorted = False,
       num_individ = None, gens = None, input_population = None\<rparr>
   \<and> individuals [[(''score'', PFloat 1)], [(''score'', PFloat 2)]]
       \<lparr>items = [0, 1], is_sorted = False, num_individ = None, gens = None,
        input_population = None\<rparr>
     = [[(''score'', PFloat 1)], [(''score'', PFloat (2::real)) :: string \<times> unit pyval]]"
proof -
  let ?h = "[[(''score'', PFloat 1)]] :: unit heap"
  let ?p = "\<lparr>items = [0], is_sorted = False, num_individ = None, gens = None,
             input_population = None\<rparr>"
  have v: "valid_refs ?h ?p"
    by (simp add: valid_refs_def)
  have a: "add_dict [(''score'', PFloat 2)] ?h ?p
     = ([[(''score'', PFloat 1)], [(''score'', PFloat 2)]],
        \<lparr>items = [0, 1], is_sorted = False, num_individ = None, gens = None,
         input_population = None\<rparr>)"
    by (simp add: add_dict_def)
  from add_dict_appends [OF v a] v show ?thesis
    by (simp add: individuals_def)
qed

subsection \<open>sort\_by\_dict\<close>


lemma keys_of_total:
  "list_all (\<lambda>r. \<exists>v. getitem (h ! r) k = Inr v) rs \<Longrightarrow> \<exists>ks. keys_of h k rs = Inr ks"
  by (induction rs) (auto split: sum.splits)










lemma list_sort_short: "length rs \<le> 1 \<Longrightarrow> list_sort \<rho> reverse rs = rs"
  by (cases rs) (auto simp: list_sort_def)


lemma num_obj_disjoint: "num_of v = Some n \<Longrightarrow> obj_of v = None"
  by (cases v) simp_all




lemma key_le_Inl_left: "getitem (h ! r) k = Inl e \<Longrightarrow> \<not> key_le h k r x"
  by (simp add: key_le_def)














subsection \<open>reset\_idx\_individ\<close>

lemma reset_loop_length: "length (reset_loop i rs h) = length h"
  by (induction rs arbitrary: i h) simp_all

lemma reset_loop_other:
  "r \<notin> set rs \<Longrightarrow> reset_loop i rs h ! r = h ! r"
  by (induction rs arbitrary: i h) auto

lemma getitem_setitem: "getitem (setitem d k v) k = Inr v"
  by (simp add: getitem_def setitem_def update_conv')

lemma reset_loop_idx:
  "distinct rs \<Longrightarrow> list_all (\<lambda>r. r < length h) rs \<Longrightarrow>
   map (\<lambda>r. getitem (reset_loop i rs h ! r) ''idx_individ'') rs
     = map (\<lambda>j. Inr (PInt (i + int j))) [0..<length rs]"
proof (induction rs arbitrary: i h)
  case Nil
  then show ?case by simp
next
  case (Cons r rs)
  let ?h = "h[r := setitem (h ! r) ''idx_individ'' (PInt i)]"
  have r: "r < length h" and nin: "r \<notin> set rs" and d: "distinct rs"
    and v: "list_all (\<lambda>r. r < length ?h) rs"
    using Cons.prems by simp_all
  have hd: "getitem (reset_loop (i + 1) rs ?h ! r) ''idx_individ'' = Inr (PInt i)"
    using r nin by (simp add: reset_loop_other getitem_setitem)
  have tl: "map (\<lambda>r. getitem (reset_loop (i + 1) rs ?h ! r) ''idx_individ'') rs
     = map (\<lambda>j. Inr (PInt (i + 1 + int j))) [0..<length rs]"
    using Cons.IH [OF d v] .
  have "[0..<length (r # rs)] = 0 # map Suc [0..<length rs]"
    by (simp add: upt_conv_Cons map_Suc_upt del: upt_Suc)
  then show ?case
    using hd tl by (simp add: o_def add.assoc del: upt_Suc)
qed

text \<open>
  C6, as amended. For every population of \<open>n\<close> individuals that are pairwise
  different objects, after \<open>reset_idx_individ()\<close> the field \<open>idx_individ\<close> of
  the individuals, read in iteration order, is exactly \<open>0, 1, ..., n-1\<close>, and the
  list itself is unchanged.
\<close>

theorem reset_idx_individ_dense:
  assumes "distinct (items self)" and "valid_refs h self"
    and "reset_idx_individ h self = (h', self')"
  shows "self' = self
       \<and> idx_individs h' self' = map (\<lambda>j. Inr (PInt (int j))) [0..<length (items self)]"
  using assms reset_loop_idx [of "items self" h 0]
  by (auto simp: reset_idx_individ_def idx_individs_def individuals_def valid_refs_def o_def)

theorem reset_idx_individ_dense_witness:
  "distinct [1, 0 :: nat]
   \<and> valid_refs ([[(''score'', PFloat 1)], [(''idx_individ'', PInt 5)]] :: unit heap)
        \<lparr>items = [1, 0], is_sorted = False, num_individ = None, gens = None,
         input_population = None\<rparr>
   \<and> idx_individs
        ([[(''score'', PFloat 1), (''idx_individ'', PInt 1)], [(''idx_individ'', PInt 0)]]
           :: unit heap)
        \<lparr>items = [1, 0], is_sorted = False, num_individ = None, gens = None,
         input_population = None\<rparr>
      = [Inr (PInt 0), Inr (PInt 1)]"
proof -
  let ?h = "[[(''score'', PFloat 1)], [(''idx_individ'', PInt 5)]] :: unit heap"
  let ?p = "\<lparr>items = [1, 0], is_sorted = False, num_individ = None, gens = None,
             input_population = None\<rparr>"
  have d: "distinct (items ?p)" by simp
  have v: "valid_refs ?h ?p" by (simp add: valid_refs_def)
  have r: "reset_idx_individ ?h ?p
     = ([[(''score'', PFloat 1), (''idx_individ'', PInt 1)], [(''idx_individ'', PInt 0)]], ?p)"
    by (simp add: reset_idx_individ_def setitem_def)
  from reset_idx_individ_dense [OF d v r] v show ?thesis
    by (simp add: upt_rec)
qed

text \<open>
  The claim as stated fails when the list holds the same object twice: both positions
  then read the index written last.
\<close>

theorem reset_idx_individ_aliased_counterexample:
  "valid_refs ([[(''score'', PFloat 1)]] :: unit heap)
      \<lparr>items = [0, 0], is_sorted = False, num_individ = None, gens = None,
       input_population = None\<rparr>
   \<and> idx_individs
       (fst (reset_idx_individ ([[(''score'', PFloat 1)]] :: unit heap)
          \<lparr>items = [0, 0], is_sorted = False, num_individ = None, gens = None,
           input_population = None\<rparr>))
       (snd (reset_idx_individ ([[(''score'', PFloat 1)]] :: unit heap)
          \<lparr>items = [0, 0], is_sorted = False, num_individ = None, gens = None,
           input_population = None\<rparr>))
     = [Inr (PInt 1), Inr (PInt 1)]
   \<and> [Inr (PInt 1), Inr (PInt 1)]
     \<noteq> map (\<lambda>j. Inr (PInt (int j)) :: error + unit pyval) [0..<2]"
  by (simp add: valid_refs_def reset_idx_individ_def idx_individs_def individuals_def
      getitem_def setitem_def upt_rec)

subsection \<open>get\_empty\_individ\<close>

lemma fromkeys_aux_keys:
  "fst ` set (fold (\<lambda>k d. setitem d k PNone) ks d0) = set ks \<union> fst ` set d0"
  by (induction ks arbitrary: d0) (auto simp: setitem_def dom_update)

lemma setitem_values: "snd ` set (setitem d k v) \<subseteq> insert v (snd ` set d)"
  unfolding setitem_def by (induction d) auto

lemma fromkeys_aux_values:
  "snd ` set (fold (\<lambda>k d. setitem d k PNone) ks d0) \<subseteq> insert PNone (snd ` set d0)"
proof (induction ks arbitrary: d0)
  case Nil then show ?case by auto
next
  case (Cons k ks)
  show ?case using Cons.IH [of "setitem d0 k PNone"] setitem_values [of d0 k PNone]
    by auto
qed

lemma fromkeys_keys: "fst ` set (fromkeys ks) = set ks"
  by (simp add: fromkeys_def fromkeys_aux_keys)

lemma fromkeys_values: "snd ` set (fromkeys ks) \<subseteq> {PNone}"
  using fromkeys_aux_values [of ks "[]"] by (simp add: fromkeys_def)

lemma fromkeys_aux_order:
  "distinct (map fst d0 @ ks) \<Longrightarrow> map fst (fold (\<lambda>k d. setitem d k PNone) ks d0) = map fst d0 @ ks"
proof (induction ks arbitrary: d0)
  case Nil then show ?case by simp
next
  case (Cons k ks)
  have "map fst (setitem d0 k PNone) = map fst d0 @ [k]"
    using Cons.prems by (simp add: setitem_def update_keys)
  then show ?case using Cons.IH [of "setitem d0 k PNone"] Cons.prems by simp
qed

lemma fromkeys_order: "distinct ks \<Longrightarrow> map fst (fromkeys ks) = ks"
  using fromkeys_aux_order [of "[]" ks] by (simp add: fromkeys_def)

lemma fromkeys_getitem: "k \<in> set ks \<Longrightarrow> getitem (fromkeys ks) k = Inr PNone"
proof -
  assume "k \<in> set ks"
  then have "k \<in> fst ` set (fromkeys ks :: 'a individ)" by (simp add: fromkeys_keys)
  then obtain v where m: "map_of (fromkeys ks :: 'a individ) k = Some v"
    by (metis weak_map_of_SomeI imageE prod.collapse)
  then have "(k, v) \<in> set (fromkeys ks :: 'a individ)" by (rule map_of_SomeD)
  then have "v \<in> snd ` set (fromkeys ks :: 'a individ)" by force
  then have "v = PNone" using fromkeys_values [of ks] by auto
  with m show ?thesis by (simp add: getitem_def)
qed

text \<open>
  C7. \<open>get_empty_individ()\<close> returns \<open>None\<close> when the population is empty.
  When it is not, it returns a record whose field names are those of the first
  individual (in the same order), hence those of the existing individuals when they all
  have the same field names, and whose every value is \<open>None\<close>. The population and
  the stored individuals are unchanged.
\<close>

theorem get_empty_individ_template:
  assumes "get_empty_individ h self = (res, h', self')"
  shows "h' = h \<and> self' = self
       \<and> (items self = [] \<longrightarrow> res = None)
       \<and> (items self \<noteq> [] \<longrightarrow>
            (\<exists>t. res = Some t
               \<and> fst ` set t = fst ` set (hd (individuals h self))
               \<and> (\<forall>k \<in> fst ` set t. getitem t k = Inr PNone)
               \<and> snd ` set t \<subseteq> {PNone}
               \<and> (distinct (map fst (hd (individuals h self)))
                    \<longrightarrow> map fst t = map fst (hd (individuals h self)))
               \<and> ((\<forall>d \<in> set (individuals h self). fst ` set d = F) \<longrightarrow> fst ` set t = F)))"
proof (cases "items self")
  case Nil
  with assms show ?thesis by (simp add: get_empty_individ_def)
next
  case (Cons r rs)
  let ?d = "h ! r"
  let ?t = "fromkeys (map fst ?d) :: 'a individ"
  have hd: "hd (individuals h self) = ?d" and mem: "?d \<in> set (individuals h self)"
    using Cons by (simp_all add: individuals_def)
  have res: "res = Some ?t" and st: "h' = h" "self' = self"
    using assms Cons by (auto simp: get_empty_individ_def)
  have k: "fst ` set ?t = fst ` set ?d" by (simp add: fromkeys_keys)
  have g: "\<forall>k \<in> fst ` set ?t. getitem ?t k = Inr PNone"
    using fromkeys_getitem [of _ "map fst ?d"] k by auto
  have v: "snd ` set ?t \<subseteq> {PNone}" by (rule fromkeys_values)
  have o: "distinct (map fst ?d) \<longrightarrow> map fst ?t = map fst ?d"
    by (simp add: fromkeys_order)
  have f: "(\<forall>d \<in> set (individuals h self). fst ` set d = F) \<longrightarrow> fst ` set ?t = F"
    using mem k by auto
  have ne: "items self \<noteq> []" using Cons by simp
  from res k g v o f ne st show ?thesis
    unfolding hd by blast
qed

theorem get_empty_individ_template_witness:
  "get_empty_individ ([[(''genotype'', PObj [True]), (''score'', PFloat 1)]] :: bool list heap)
      \<lparr>items = [0], is_sorted = False, num_individ = None, gens = None,
       input_population = None\<rparr>
     = (Some [(''genotype'', PNone), (''score'', PNone)],
        [[(''genotype'', PObj [True]), (''score'', PFloat 1)]],
        \<lparr>items = [0], is_sorted = False, num_individ = None, gens = None,
         input_population = None\<rparr>)
   \<and> get_empty_individ ([] :: bool list heap)
      \<lparr>items = [], is_sorted = False, num_individ = None, gens = None,
       input_population = None\<rparr>
     = (None, [], \<lparr>items = [], is_sorted = False, num_individ = None, gens = None,
         input_population = None\<rparr>)"
proof -
  let ?h = "[[(''genotype'', PObj [True]), (''score'', PFloat 1)]] :: bool list heap"
  let ?p = "\<lparr>items = [0], is_sorted = False, num_individ = None, gens = None,
             input_population = None\<rparr>"
  let ?e = "\<lparr>items = [], is_sorted = False, num_individ = None, gens = None,
             input_population = None\<rparr>"
  have a: "get_empty_individ ?h ?p
     = (Some [(''genotype'', PNone), (''score'', PNone)], ?h, ?p)"
    by (simp add: get_empty_individ_def fromkeys_def setitem_def)
  have b: "get_empty_individ ([] :: bool list heap) ?e = (None, [], ?e)"
    by (simp add: get_empty_individ_def)
  from get_empty_individ_template [OF a, of "{''genotype'', ''score''}"]
    get_empty_individ_template [OF b] a b
  show ?thesis by simp
qed

section \<open>Properties of VEGA.optimize\<close>

subsection \<open>The log of the main loop\<close>

lemma and_then_Inl: "m tr = (tr', Inl e) \<Longrightarrow> and_then m f tr = (tr', Inl e)"
  by (simp add: and_then_def)

lemma and_then_Inr: "m tr = (tr', Inr x) \<Longrightarrow> and_then m f tr = f x tr'"
  by (simp add: and_then_def)

lemma and_then_cases:
  assumes "and_then m f tr = (tr'', r)"
  obtains (fails) e where "m tr = (tr'', Inl e)" "r = Inl e"
        | (goes) tr' x where "m tr = (tr', Inr x)" "f x tr' = (tr'', r)"
proof (cases "m tr")
  case (Pair tr' y)
  show ?thesis
  proof (cases y)
    case (Inl e)
    with Pair assms fails show ?thesis by (simp add: and_then_def)
  next
    case (Inr x)
    with Pair assms goes show ?thesis by (simp add: and_then_def)
  qed
qed

lemma and_then_InrD:
  "and_then m f tr = (tr'', Inr y) \<Longrightarrow> \<exists>tr' x. m tr = (tr', Inr x) \<and> f x tr' = (tr'', Inr y)"
  by (erule and_then_cases) simp_all

lemma generation_Inr:
  assumes "generation upd ops g tr = (tr', Inr g')"
  shows "tr' = tr @ generation_events
       \<and> (\<exists>g1 g2 g3 g4 g5. selection ops g = Inr g1 \<and> cross ops g1 = Inr g2
            \<and> mutation ops g2 = Inr g3 \<and> new_generation ops g3 = Inr g4
            \<and> fitness_func ops g4 = Inr g5 \<and> upd g5 = Inr g')"
  using assms unfolding generation_def generation_events_def
  by (auto elim!: and_then_cases simp: call_def)

lemma generation_prefix:
  assumes "generation upd ops g tr = (tr', r)"
  shows "\<exists>es. tr' = tr @ es \<and> prefix es generation_events \<and> es \<noteq> []"
  using assms unfolding generation_def generation_events_def
  by (auto elim!: and_then_cases simp: call_def)

lemma main_loop_take_break:
  assumes "main_loop upd ops (take k xs) g tr = (tr', Inr g')"
    and "0 < k"
    and "GaData.early_stop g' < num_generation_no_improve g'"
  shows "main_loop upd ops xs g tr = (tr', Inr g')"
  using assms
proof (induction xs arbitrary: k g tr)
  case Nil
  then show ?case by simp
next
  case (Cons i rest)
  obtain k' where k: "k = Suc k'"
    using Cons.prems(2) by (cases k) simp_all
  let ?f = "\<lambda>g1. if GaData.early_stop g1 < num_generation_no_improve g1 then ret g1
                  else main_loop upd ops (take k' rest) g1"
  let ?F = "\<lambda>g1. if GaData.early_stop g1 < num_generation_no_improve g1 then ret g1
                  else main_loop upd ops rest g1"
  have run: "and_then (generation upd ops g) ?f tr = (tr', Inr g')"
    using Cons.prems(1) k by simp
  from run show ?case
  proof (cases rule: and_then_cases)
    case (fails e)
    then show ?thesis by simp
  next
    case (goes tr1 g1)
    have full: "main_loop upd ops (i # rest) g tr = ?F g1 tr1"
      using goes(1) by (simp add: and_then_Inr)
    show ?thesis
    proof (cases "GaData.early_stop g1 < num_generation_no_improve g1")
      case True
      then show ?thesis using full goes(2) by simp
    next
      case False
      then have cut: "main_loop upd ops (take k' rest) g1 tr1 = (tr', Inr g')"
        using goes(2) by simp
      have "0 < k'"
      proof (rule ccontr)
        assume "\<not> 0 < k'"
        then have "g' = g1" using cut by (simp add: ret_def)
        then show False using False Cons.prems(3) by simp
      qed
      then have "main_loop upd ops rest g1 tr1 = (tr', Inr g')"
        using Cons.IH [OF cut _ Cons.prems(3)] by simp
      then show ?thesis using full False by simp
    qed
  qed
qed

lemma main_loop_shape:
  assumes "main_loop upd ops xs g tr = (tr', r)"
  shows "\<exists>j es. j \<le> length xs \<and> tr' = tr @ concat (replicate j generation_events) @ es
            \<and> (case r of Inr _ \<Rightarrow> es = []
                | Inl _ \<Rightarrow> j < length xs \<and> prefix es generation_events \<and> es \<noteq> [])"
  using assms
proof (induction xs arbitrary: g tr)
  case Nil
  then show ?case by (auto simp: ret_def)
next
  case (Cons i rest)
  let ?F = "\<lambda>g1. if GaData.early_stop g1 < num_generation_no_improve g1 then ret g1
                  else main_loop upd ops rest g1"
  have run: "and_then (generation upd ops g) ?F tr = (tr', r)"
    using Cons.prems by simp
  from run show ?case
  proof (cases rule: and_then_cases)
    case (fails e)
    then obtain es where "tr' = tr @ es" "prefix es generation_events" "es \<noteq> []"
      using generation_prefix by blast
    then have "0 \<le> length (i # rest) \<and> tr' = tr @ concat (replicate 0 generation_events) @ es
            \<and> (case r of Inr _ \<Rightarrow> es = []
                | Inl _ \<Rightarrow> 0 < length (i # rest) \<and> prefix es generation_events \<and> es \<noteq> [])"
      using fails(2) by simp
    then show ?thesis by blast
  next
    case (goes tr1 g1)
    have tr1: "tr1 = tr @ generation_events"
      using generation_Inr [OF goes(1)] by simp
    show ?thesis
    proof (cases "GaData.early_stop g1 < num_generation_no_improve g1")
      case True
      then have "tr' = tr1" "r = Inr g1" using goes(2) by (simp_all add: ret_def)
      then have "1 \<le> length (i # rest) \<and> tr' = tr @ concat (replicate 1 generation_events) @ []
            \<and> (case r of Inr _ \<Rightarrow> [] = ([] :: event list)
                | Inl _ \<Rightarrow> 1 < length (i # rest) \<and> prefix [] generation_events \<and> [] \<noteq> ([] :: event list))"
        using tr1 by simp
      then show ?thesis by blast
    next
      case False
      then have "main_loop upd ops rest g1 tr1 = (tr', r)" using goes(2) by simp
      from Cons.IH [OF this] obtain j es where j: "j \<le> length rest"
        "tr' = tr1 @ concat (replicate j generation_events) @ es"
        "case r of Inr _ \<Rightarrow> es = []
                | Inl _ \<Rightarrow> j < length rest \<and> prefix es generation_events \<and> es \<noteq> []"
        by blast
      have "Suc j \<le> length (i # rest) \<and> tr' = tr @ concat (replicate (Suc j) generation_events) @ es
            \<and> (case r of Inr _ \<Rightarrow> es = []
                | Inl _ \<Rightarrow> Suc j < length (i # rest) \<and> prefix es generation_events \<and> es \<noteq> [])"
        using j tr1 by (auto split: sum.splits)
      then show ?thesis by blast
    qed
  qed
qed

lemma count_generation_events:
  "count_list (concat (replicate j generation_events)) Update = j"
  by (induction j) (simp_all add: generation_events_def)

lemma main_loop_count:
  assumes "main_loop upd ops xs g tr = (tr', Inr g')"
  shows "count_list tr' Update \<le> count_list tr Update + length xs"
proof -
  obtain j es where "j \<le> length xs" "tr' = tr @ concat (replicate j generation_events) @ es"
    "es = []"
    using main_loop_shape [OF assms] by auto
  then show ?thesis by (simp add: count_generation_events)
qed

subsection \<open>The run on a constant objective\<close>

lemma gen_idle: "generation first_only_update idle_ops
     \<lparr>GaData.num_generations = n, GaData.children_percent = c,
      GaData.early_stop = es, num_generation = k, num_generation_no_improve = j,
      population = Some ()\<rparr> tr
    = (tr @ generation_events, Inr \<lparr>GaData.num_generations = n, GaData.children_percent = c,
      GaData.early_stop = es, num_generation = k + 1,
      num_generation_no_improve = (if k = 0 then 0 else j + 1),
      population = Some ()\<rparr>)"
  by (simp add: generation_def generation_events_def and_then_def call_def idle_ops_def
      first_only_update_def update_spec_def)

lemma upd_idle: "first_only_update
     \<lparr>GaData.num_generations = n, GaData.children_percent = c,
      GaData.early_stop = es, num_generation = k, num_generation_no_improve = j,
      population = Some ()\<rparr>
    = Inr \<lparr>GaData.num_generations = n, GaData.children_percent = c,
      GaData.early_stop = es, num_generation = k + 1,
      num_generation_no_improve = (if k = 0 then 0 else j + 1),
      population = Some ()\<rparr>"
  by (simp add: first_only_update_def update_spec_def)

lemma loop_idle_3:
  "main_loop first_only_update idle_ops [1..9] (after_init 10 3) tr
   = (tr @ concat (replicate 4 generation_events),
      Inr \<lparr>GaData.num_generations = 10, GaData.children_percent = 19 / 20,
     GaData.early_stop = 3, num_generation = 5, num_generation_no_improve = 4,
     population = Some ()\<rparr>)"
  by (simp add: after_init_def gen_idle and_then_def ret_def upto.simps numeral_eq_Suc)

lemma loop_idle_10:
  "main_loop first_only_update idle_ops [1..9] (after_init 10 10) tr
   = (tr @ concat (replicate 9 generation_events),
      Inr \<lparr>GaData.num_generations = 10, GaData.children_percent = 19 / 20,
     GaData.early_stop = 10, num_generation = 10, num_generation_no_improve = 9,
     population = Some ()\<rparr>)"
  by (simp add: after_init_def gen_idle and_then_def ret_def upto.simps numeral_eq_Suc)

lemma optimize_idle_3:
  "optimize idle_ga () (constant_run 10 (Some 3)) []
   = (setup_events (constant_run 10 (Some 3)) @ initial_events
        @ concat (replicate 4 generation_events),
      Inr \<lparr>GaData.num_generations = 10, GaData.children_percent = 19 / 20,
     GaData.early_stop = 3, num_generation = 5, num_generation_no_improve = 4,
     population = Some ()\<rparr>)"
  by (simp add: optimize_def constant_run_def VEGA_init_def idle_ga_def num_objectives_of_def
       MultiGaData_def upd_idle idle_ops_def [symmetric] loop_idle_3 [unfolded after_init_def]
       and_then_def call_def ret_def setup_events_def initial_events_def)

lemma optimize_idle_10:
  "optimize idle_ga () (constant_run 10 None) []
   = (setup_events (constant_run 10 None) @ initial_events
        @ concat (replicate 9 generation_events),
      Inr \<lparr>GaData.num_generations = 10, GaData.children_percent = 19 / 20,
     GaData.early_stop = 10, num_generation = 10, num_generation_no_improve = 9,
     population = Some ()\<rparr>)"
  by (simp add: optimize_def constant_run_def VEGA_init_def idle_ga_def num_objectives_of_def
       MultiGaData_def upd_idle idle_ops_def [symmetric] loop_idle_10 [unfolded after_init_def]
       and_then_def call_def ret_def setup_events_def initial_events_def)

lemma idle_ops_keep: "ops_keep_counters idle_ops"
  by (simp add: ops_keep_counters_def keeps_counters_def idle_ops_def)

lemma idle_ga_keeps: "ga_keeps_counters idle_ga"
  by (auto simp: ga_keeps_counters_def keeps_counters_def idle_ga_def)

subsection \<open>The stopping condition\<close>

text \<open>
  C1. In every evolving step of the driver loop, after \<open>GaData.update()\<close> the loop
  exits if \<open>num_generation_no_improve > early_stop\<close> or the generation count has
  reached \<open>num_generations\<close>, and no further phase is executed. Stated for a run of
  the loop that is cut after at most \<open>k\<close> steps, \<open>k > 0\<close>, and then holds the state
  \<open>g'\<close> and the log \<open>tr'\<close>: if the counter exceeds the threshold in \<open>g'\<close>, or the
  number of generations evaluated so far (the calls of \<open>update\<close> in the log, one of
  them before the loop) has reached \<open>num_generations\<close>, then the whole loop ends in
  this state with this log.
\<close>

theorem main_loop_stops:
  assumes "main_loop upd ops (take k [1..N - 1]) g tr = (tr', Inr g')"
    and "0 < k"
    and "count_list tr Update = 1"
    and "GaData.early_stop g' < num_generation_no_improve g' \<or> N \<le> int (count_list tr' Update)"
  shows "main_loop upd ops [1..N - 1] g tr = (tr', Inr g')"
  using assms(4)
proof
  assume "GaData.early_stop g' < num_generation_no_improve g'"
  with assms(1,2) show ?thesis by (rule main_loop_take_break)
next
  assume n: "N \<le> int (count_list tr' Update)"
  have "count_list tr' Update \<le> 1 + length (take k [1..N - 1])"
    using main_loop_count [OF assms(1)] assms(3) by simp
  then have "length [1..N - 1] \<le> k"
    using n by (simp split: if_splits)
  then have "take k [1..N - 1] = [1..N - 1]" by simp
  then show ?thesis using assms(1) by simp
qed

theorem main_loop_stops_witness:
  "main_loop first_only_update idle_ops (take 4 [1..10 - 1]) (after_init 10 3)
       [Fill, Fitness, Update]
     = ([Fill, Fitness, Update] @ concat (replicate 4 generation_events),
        Inr \<lparr>GaData.num_generations = 10, GaData.children_percent = 19 / 20,
          GaData.early_stop = 3, num_generation = 5, num_generation_no_improve = 4,
          population = Some ()\<rparr>)
   \<and> main_loop first_only_update idle_ops [1..10 - 1] (after_init 10 3)
       [Fill, Fitness, Update]
     = ([Fill, Fitness, Update] @ concat (replicate 4 generation_events),
        Inr \<lparr>GaData.num_generations = 10, GaData.children_percent = 19 / 20,
          GaData.early_stop = 3, num_generation = 5, num_generation_no_improve = 4,
          population = Some ()\<rparr>)"
proof -
  let ?g = "\<lparr>GaData.num_generations = 10, GaData.children_percent = 19 / 20,
          GaData.early_stop = 3, num_generation = 5, num_generation_no_improve = 4,
          population = Some ()\<rparr> :: (unit, unit) GaData_scheme"
  let ?tr = "[Fill, Fitness, Update] @ concat (replicate 4 generation_events)"
  have a: "main_loop first_only_update idle_ops (take 4 [1..10 - 1]) (after_init 10 3)
       [Fill, Fitness, Update] = (?tr, Inr ?g)"
    by (simp add: after_init_def gen_idle and_then_def ret_def upto.simps numeral_eq_Suc)
  have b: "0 < (4::nat)" by simp
  have c: "count_list [Fill, Fitness, Update] Update = 1" by simp
  have d: "GaData.early_stop ?g < num_generation_no_improve ?g
      \<or> 10 \<le> int (count_list ?tr Update)"
    by simp
  from main_loop_stops [OF a b c d] a show ?thesis by simp
qed

subsection \<open>The log of optimize\<close>

lemma traces_ret: "traces (ret x) {[]}"
  by (simp add: traces_def ret_def)

lemma traces_call: "traces (call ev r) {[ev]}"
  by (auto simp: traces_def call_def split: sum.splits)

lemma traces_pure: "traces (\<lambda>tr. (tr, r)) {[]}"
  by (auto simp: traces_def split: sum.splits)

lemma traces_if:
  "traces m L \<Longrightarrow> traces n M \<Longrightarrow> traces (if c then m else n) (if c then L else M)"
  by simp

lemma traces_nonempty:
  assumes "traces m L"
  shows "\<exists>fs. fs \<in> L"
proof -
  obtain tb rb where b: "m [] = (tb, rb)" by (cases "m []")
  from assms b have "\<exists>es. tb = [] @ es
      \<and> (case rb of Inr _ \<Rightarrow> es \<in> L | Inl _ \<Rightarrow> (\<exists>fs\<in>L. prefix es fs))"
    unfolding traces_def by blast
  then show ?thesis by (cases rb) auto
qed

lemma traces_and_then:
  assumes m: "traces m L" and f: "\<And>x. traces (f x) M"
  shows "traces (and_then m f) (cat L M)"
  unfolding traces_def
proof (intro allI impI)
  fix tr tr'' r
  assume "and_then m f tr = (tr'', r)"
  then show "\<exists>es. tr'' = tr @ es
     \<and> (case r of Inr _ \<Rightarrow> es \<in> cat L M | Inl _ \<Rightarrow> (\<exists>fs\<in>cat L M. prefix es fs))"
  proof (cases rule: and_then_cases)
    case (fails e)
    have "\<exists>es. tr'' = tr @ es \<and> (\<exists>fs\<in>L. prefix es fs)"
      using m fails(1) unfolding traces_def by fastforce
    then obtain es fs where es: "tr'' = tr @ es" "fs \<in> L" "prefix es fs"
      by blast
    obtain gs where "gs \<in> M"
      using traces_nonempty [OF f] by blast
    then have "fs @ gs \<in> cat L M" "prefix es (fs @ gs)"
      using es by (auto simp: cat_def)
    then show ?thesis using es(1) fails(2) by auto
  next
    case (goes tr' x)
    have "\<exists>es. tr' = tr @ es \<and> es \<in> L"
      using m goes(1) unfolding traces_def by fastforce
    then obtain es where es: "tr' = tr @ es" "es \<in> L"
      by blast
    obtain gs where gs: "tr'' = tr' @ gs"
      "case r of Inr _ \<Rightarrow> gs \<in> M | Inl _ \<Rightarrow> (\<exists>fs\<in>M. prefix gs fs)"
      using f [of x] goes(2) unfolding traces_def by blast
    show ?thesis
    proof (cases r)
      case (Inl e)
      then obtain fs where "fs \<in> M" "prefix gs fs" using gs(2) by auto
      then have "es @ fs \<in> cat L M" "prefix (es @ gs) (es @ fs)"
        using es(2) by (auto simp: cat_def)
      then have "\<exists>x\<in>cat L M. prefix (es @ gs) x" by blast
      then show ?thesis using Inl es(1) gs(1) by simp
    next
      case (Inr y)
      then have "es @ gs \<in> cat L M" using gs(2) es(2) by (auto simp: cat_def)
      then show ?thesis using Inr es(1) gs(1) by auto
    qed
  qed
qed

lemma traces_generation: "traces (generation upd ops g) {generation_events}"
  unfolding traces_def
proof (intro allI impI)
  fix tr tr' r
  assume a: "generation upd ops g tr = (tr', r)"
  show "\<exists>es. tr' = tr @ es
     \<and> (case r of Inr _ \<Rightarrow> es \<in> {generation_events}
         | Inl _ \<Rightarrow> (\<exists>fs\<in>{generation_events}. prefix es fs))"
  proof (cases r)
    case (Inl e)
    then show ?thesis using generation_prefix [OF a] by auto
  next
    case (Inr g')
    then show ?thesis using generation_Inr [of upd ops g tr tr' g'] a by auto
  qed
qed

lemma traces_main_loop:
  "traces (main_loop upd ops xs g) {concat (replicate j generation_events) | j. True}"
  unfolding traces_def
proof (intro allI impI)
  fix tr tr' r
  assume a: "main_loop upd ops xs g tr = (tr', r)"
  from main_loop_shape [OF a] obtain j es where j:
    "tr' = tr @ concat (replicate j generation_events) @ es"
    "case r of Inr _ \<Rightarrow> es = []
       | Inl _ \<Rightarrow> j < length xs \<and> prefix es generation_events \<and> es \<noteq> []"
    by blast
  show "\<exists>es. tr' = tr @ es
     \<and> (case r of Inr _ \<Rightarrow> es \<in> {concat (replicate j generation_events) | j. True}
         | Inl _ \<Rightarrow> (\<exists>fs\<in>{concat (replicate j generation_events) | j. True}. prefix es fs))"
  proof (cases r)
    case (Inl e)
    then have p: "prefix es generation_events" using j(2) by simp
    define fs where "fs = concat (replicate (Suc j) generation_events)"
    have "fs = concat (replicate j generation_events) @ generation_events"
      unfolding fs_def by (induction j) simp_all
    then have pre: "prefix (concat (replicate j generation_events) @ es) fs"
      using p by simp
    have "fs \<in> {concat (replicate j generation_events) | j. True}"
      unfolding fs_def by blast
    then show ?thesis using Inl j(1) pre by auto
  next
    case (Inr g')
    then show ?thesis using j by auto
  qed
qed

lemma cat_single_single: "cat {a} {b} = {a @ b}"
  by (auto simp: cat_def)

lemma cat_single_set: "cat {a} {f j | j. True} = {a @ f j | j. True}"
  by (auto simp: cat_def)

lemma cat_set_single: "cat {f j | j. True} {b} = {f j @ b | j. True}"
  by (auto simp: cat_def)

lemma if_single: "(if c then {a} else {b}) = {if c then a else b}"
  by simp

lemma traces_num_objectives:
  "traces (num_objectives_of self)
     {case conditions self of
        None \<Rightarrow> [Probe (replicate (length (VEGA.gens self)) 0)] | Some c \<Rightarrow> []}"
proof (cases "conditions self")
  case None
  have "traces (and_then
            (call (Probe (replicate (length (VEGA.gens self)) 0))
               (call1 (obj_function self) (replicate (length (VEGA.gens self)) 0)))
            (\<lambda>y. (\<lambda>tr. (tr, len y))))
          (cat {[Probe (replicate (length (VEGA.gens self)) 0)]} {[]})"
    by (intro traces_and_then traces_call traces_pure)
  then show ?thesis using None by (simp add: num_objectives_of_def cat_single_single)
next
  case (Some c)
  then show ?thesis by (simp add: num_objectives_of_def traces_ret)
qed

lemma traces_optimize:
  "traces (optimize ga rest self) {complete_run self k | k. True}"
proof -
  let ?L = "cat {case conditions self of
        None \<Rightarrow> [Probe (replicate (length (VEGA.gens self)) 0)] | Some c \<Rightarrow> []}
     (cat {[Construct ''MultiGaData'']}
     (cat (if is_gray self then {[Construct ''BinaryGrayPopulation'']}
           else {[Construct ''BinaryPopulation'']})
     (cat {[SetParams]}
     (cat {[Construct ''VEGAHyperbolaFitness'']}
     (cat {[Construct ''VEGATournamentSelection'']}
     (cat {[Construct ''OnePointCrossover'']}
     (cat {[Construct ''BinStringMutation'']}
     (cat {[Construct ''MultiNewGeneration'']}
     (cat {[Fill]}
     (cat {[Fitness]}
     (cat {[Update]}
     (cat {concat (replicate j generation_events) | j. True}
     (cat (if is_print self then {[PrintBest]} else {[]}) {[]})))))))))))))"
  have "traces (optimize ga rest self) ?L"
    unfolding optimize_def
    by (intro traces_and_then traces_if traces_call traces_ret traces_main_loop
        traces_num_objectives)
  moreover have "?L = {complete_run self k | k. True}"
    unfolding if_single cat_single_single cat_set_single cat_single_set
    by (simp add: complete_run_def setup_events_def initial_events_def)
  ultimately show ?thesis by simp
qed

lemma traces_extends: "traces m L \<Longrightarrow> extends m"
  unfolding traces_def extends_def
proof
  fix tr
  assume a: "\<forall>tr tr' r. m tr = (tr', r) \<longrightarrow>
        (\<exists>es. tr' = tr @ es
           \<and> (case r of Inr _ \<Rightarrow> es \<in> L | Inl _ \<Rightarrow> (\<exists>fs\<in>L. prefix es fs)))"
  obtain tr' r where m: "m tr = (tr', r)" by (cases "m tr")
  with a obtain es where "tr' = tr @ es" by blast
  then show "prefix tr (fst (m tr))" using m by simp
qed

lemma extends_ret: "extends (ret x)"
  by (simp add: extends_def ret_def)

lemma extends_call: "extends (call ev r)"
  by (simp add: extends_def call_def)

lemma extends_if: "extends m \<Longrightarrow> extends n \<Longrightarrow> extends (if c then m else n)"
  by simp

lemma extends_main_loop: "extends (main_loop upd ops xs g)"
  using traces_main_loop by (rule traces_extends)

lemma and_then_first:
  assumes "m tr = (tr1, r)" and "\<And>x. extends (f x)"
  shows "prefix tr1 (fst (and_then m f tr))"
proof (cases r)
  case (Inl e)
  then show ?thesis using assms(1) by (simp add: and_then_def)
next
  case (Inr x)
  then have "and_then m f tr = f x tr1" using assms(1) by (simp add: and_then_def)
  then show ?thesis using assms(2) [of x] by (simp add: extends_def)
qed

lemma extends_and_then:
  assumes "extends m" and "\<And>x. extends (f x)"
  shows "extends (and_then m f)"
  unfolding extends_def
proof
  fix tr
  obtain tr1 r where m: "m tr = (tr1, r)" by (cases "m tr")
  have "prefix tr tr1" using assms(1) m by (auto simp: extends_def dest: spec [of _ tr])
  moreover have "prefix tr1 (fst (and_then m f tr))"
    using m assms(2) by (rule and_then_first)
  ultimately show "prefix tr (fst (and_then m f tr))" by (rule prefix_order.trans)
qed

lemma optimize_after_probe:
  assumes "num_objectives_of self tr = (tr1, r)"
  shows "prefix tr1 (fst (optimize ga rest self tr))"
  unfolding optimize_def
  using assms
  by (rule and_then_first)
     (intro extends_and_then extends_call extends_if extends_ret extends_main_loop)

lemma num_objectives_probe:
  assumes "conditions self = None"
  shows "num_objectives_of self tr =
           (tr @ [Probe (replicate (length (VEGA.gens self)) 0)],
            case call1 (obj_function self) (replicate (length (VEGA.gens self)) 0) of
              Inl e \<Rightarrow> Inl e | Inr y \<Rightarrow> len y)"
  using assms by (simp add: num_objectives_of_def and_then_def call_def split: sum.splits)

lemma no_probe_complete_run:
  assumes "conditions self = None"
  shows "\<exists>tl. complete_run self k = Probe (replicate (length (VEGA.gens self)) 0) # tl
            \<and> (\<forall>xs. Probe xs \<notin> set tl)"
proof -
  have "\<forall>xs. Probe xs \<notin> set (concat (replicate k generation_events))"
    by (induction k) (simp_all add: generation_events_def)
  then show ?thesis
    using assms by (simp add: complete_run_def setup_events_def initial_events_def)
qed

lemma generation_spec:
  "generation upd ops g tr = spec_in_order (spec_generation_phases upd ops) g tr"
  by (simp add: generation_def spec_generation_phases_def and_then_def call_def
      split: sum.splits)

lemma main_loop_spec:
  "main_loop upd ops xs g tr = spec_evolving (spec_generation_phases upd ops) (length xs) g tr"
proof (induction xs arbitrary: g tr)
  case Nil
  then show ?case by (simp add: ret_def)
next
  case (Cons i rest)
  show ?case
    by (simp add: and_then_def generation_spec Cons.IH ret_def split: prod.splits sum.splits)
qed

lemma num_objectives_log:
  assumes "num_objectives_of self [] = (tr1, r)"
  shows "tr1 = (case conditions self of
                  None \<Rightarrow> [Probe (replicate (length (VEGA.gens self)) 0)] | Some c \<Rightarrow> [])"
  using assms
  by (auto simp: num_objectives_of_def and_then_def call_def ret_def
      split: option.splits sum.splits)

lemma optimize_spec:
  assumes n: "num_objectives_of self [] = (tr1, Inr n)"
    and p0: "(if is_gray self then BinaryGrayPopulation ga else BinaryPopulation ga) = Inr p0"
    and p1: "set_params ga (VEGA.num_individ self) (VEGA.gens self)
               (VEGA.input_population self) p0 = Inr p1"
    and ff: "VEGAHyperbolaFitness ga (obj_function self) (obj_value self) (input_data self)
               (penalty self) (conditions self) = Inr ff"
    and sel: "VEGATournamentSelection ga n = Inr sel"
    and cr: "OnePointCrossover ga = Inr cr"
    and mu: "BinStringMutation ga (mutation_lvl self) = Inr mu"
    and ng: "MultiNewGeneration ga (transfer_parents self) = Inr ng"
  shows "optimize ga rest self []
       = spec_driver ga
           \<lparr>selection = sel, cross = cr, mutation = mu, new_generation = ng,
            fitness_func = ff\<rparr>
           p1 (is_print self)
           (MultiGaData (VEGA.num_generations self) (VEGA.children_percent self)
              (VEGA.early_stop self) rest)
           (setup_events self)"
proof -
  have tr1: "tr1 = (case conditions self of
                  None \<Rightarrow> [Probe (replicate (length (VEGA.gens self)) 0)] | Some c \<Rightarrow> [])"
    using n by (rule num_objectives_log)
  have len: "length [1..N - 1] = nat (N - 1)" for N :: int
    by simp
  show ?thesis
  proof (cases "is_gray self")
    case True
    then have "BinaryGrayPopulation ga = Inr p0" using p0 by simp
    then show ?thesis
      using True n p1 ff sel cr mu ng
      by (simp add: optimize_def and_then_def call_def ret_def spec_driver_def
          spec_initial_phases_def main_loop_spec setup_events_def tr1
          split: sum.splits prod.splits option.splits)
  next
    case False
    then have "BinaryPopulation ga = Inr p0" using p0 by simp
    then show ?thesis
      using False n p1 ff sel cr mu ng
      by (simp add: optimize_def and_then_def call_def ret_def spec_driver_def
          spec_initial_phases_def main_loop_spec setup_events_def tr1
          split: sum.splits prod.splits option.splits)
  qed
qed

subsection \<open>The order of the phases\<close>

text \<open>
  C3. Each iteration of the main loop executes Selection, Crossover, Mutation,
  NewGeneration, the fitness evaluation and \<open>GaData.update()\<close> in exactly this
  order, and the initial generation, before the loop, consists of \<open>fill\<close>, the
  fitness evaluation and \<open>GaData.update()\<close>. In the log: a run that returns has
  logged the calls of the set-up, the three calls of the initial generation, a number
  of complete iterations, and the printing if it is asked for, and a run that raises a
  prefix of such a log. In the states: the body of the loop is the six phases executed
  in this order, each on the state the one before has left, the loop is the repetition
  of this body, and once the set-up has succeeded \<open>optimize\<close> is the driver in the
  words of the specification, on the population that \<open>set_params\<close> has left and
  with the phase objects that the constructors have returned.
\<close>

theorem optimize_phase_order:
  "(optimize ga rest self [] = (tr, r) \<longrightarrow>
      (\<exists>k. prefix tr
           (setup_events self @ [Fill, Fitness, Update]
              @ concat (replicate k [Selection, Crossover, Mutation, NewGeneration, Fitness, Update])
              @ (if is_print self then [PrintBest] else []))
        \<and> (\<forall>g. r = Inr g \<longrightarrow>
             tr = setup_events self @ [Fill, Fitness, Update]
              @ concat (replicate k [Selection, Crossover, Mutation, NewGeneration, Fitness, Update])
              @ (if is_print self then [PrintBest] else []))))
   \<and> generation upd ops g0 tr0 = spec_in_order (spec_generation_phases upd ops) g0 tr0
   \<and> main_loop upd ops xs g0 tr0
        = spec_evolving (spec_generation_phases upd ops) (length xs) g0 tr0
   \<and> (num_objectives_of self [] = (tr1, Inr n)
        \<and> (if is_gray self then BinaryGrayPopulation ga else BinaryPopulation ga) = Inr p0
        \<and> set_params ga (VEGA.num_individ self) (VEGA.gens self)
             (VEGA.input_population self) p0 = Inr p1
        \<and> VEGAHyperbolaFitness ga (obj_function self) (obj_value self) (input_data self)
             (penalty self) (conditions self) = Inr ff
        \<and> VEGATournamentSelection ga n = Inr sel
        \<and> OnePointCrossover ga = Inr cr
        \<and> BinStringMutation ga (mutation_lvl self) = Inr mu
        \<and> MultiNewGeneration ga (transfer_parents self) = Inr ng \<longrightarrow>
      optimize ga rest self []
        = spec_driver ga
            \<lparr>selection = sel, cross = cr, mutation = mu, new_generation = ng,
             fitness_func = ff\<rparr>
            p1 (is_print self)
            (MultiGaData (VEGA.num_generations self) (VEGA.children_percent self)
               (VEGA.early_stop self) rest)
            (setup_events self))"
proof (intro conjI impI)
  assume run: "optimize ga rest self [] = (tr, r)"
  from traces_optimize [of ga rest self] run
  have "\<exists>es. tr = [] @ es
      \<and> (case r of Inr _ \<Rightarrow> es \<in> {complete_run self k | k. True}
          | Inl _ \<Rightarrow> (\<exists>fs\<in>{complete_run self k | k. True}. prefix es fs))"
    unfolding traces_def by blast
  then have "\<exists>k. prefix tr (complete_run self k) \<and> (\<forall>g. r = Inr g \<longrightarrow> tr = complete_run self k)"
    by (cases r) auto
  then show "\<exists>k. prefix tr
           (setup_events self @ [Fill, Fitness, Update]
              @ concat (replicate k [Selection, Crossover, Mutation, NewGeneration, Fitness, Update])
              @ (if is_print self then [PrintBest] else []))
        \<and> (\<forall>g. r = Inr g \<longrightarrow>
             tr = setup_events self @ [Fill, Fitness, Update]
              @ concat (replicate k [Selection, Crossover, Mutation, NewGeneration, Fitness, Update])
              @ (if is_print self then [PrintBest] else []))"
    by (simp add: complete_run_def initial_events_def generation_events_def)
next
  show "generation upd ops g0 tr0 = spec_in_order (spec_generation_phases upd ops) g0 tr0"
    by (rule generation_spec)
next
  show "main_loop upd ops xs g0 tr0
        = spec_evolving (spec_generation_phases upd ops) (length xs) g0 tr0"
    by (rule main_loop_spec)
next
  assume "num_objectives_of self [] = (tr1, Inr n)
        \<and> (if is_gray self then BinaryGrayPopulation ga else BinaryPopulation ga) = Inr p0
        \<and> set_params ga (VEGA.num_individ self) (VEGA.gens self)
             (VEGA.input_population self) p0 = Inr p1
        \<and> VEGAHyperbolaFitness ga (obj_function self) (obj_value self) (input_data self)
             (penalty self) (conditions self) = Inr ff
        \<and> VEGATournamentSelection ga n = Inr sel
        \<and> OnePointCrossover ga = Inr cr
        \<and> BinStringMutation ga (mutation_lvl self) = Inr mu
        \<and> MultiNewGeneration ga (transfer_parents self) = Inr ng"
  then show "optimize ga rest self []
        = spec_driver ga
            \<lparr>selection = sel, cross = cr, mutation = mu, new_generation = ng,
             fitness_func = ff\<rparr>
            p1 (is_print self)
            (MultiGaData (VEGA.num_generations self) (VEGA.children_percent self)
               (VEGA.early_stop self) rest)
            (setup_events self)"
    using optimize_spec [of self tr1 n ga p0 p1 ff sel cr mu ng rest] by blast
qed

theorem optimize_phase_order_witness:
  "optimize idle_ga () (constant_run 10 (Some 3)) []
     = (setup_events (constant_run 10 (Some 3)) @ initial_events
          @ concat (replicate 4 generation_events),
        Inr \<lparr>GaData.num_generations = 10, GaData.children_percent = 19 / 20,
          GaData.early_stop = 3, num_generation = 5, num_generation_no_improve = 4,
          population = Some ()\<rparr>)
   \<and> num_objectives_of (constant_run 10 (Some 3)) [] = ([Probe [0]], Inr 1)
   \<and> spec_driver idle_ga idle_ops () False (MultiGaData 10 (19 / 20) 3 ())
        (setup_events (constant_run 10 (Some 3)))
     = optimize idle_ga () (constant_run 10 (Some 3)) []
   \<and> (\<exists>k. setup_events (constant_run 10 (Some 3)) @ initial_events
            @ concat (replicate 4 generation_events)
          = setup_events (constant_run 10 (Some 3)) @ [Fill, Fitness, Update]
            @ concat (replicate k
                [Selection, Crossover, Mutation, NewGeneration, Fitness, Update]))"
proof -
  let ?s = "constant_run 10 (Some 3)"
  have f: "\<not> is_print ?s" "\<not> is_gray ?s" "VEGA.num_generations ?s = 10"
    "VEGA.children_percent ?s = 19 / 20" "VEGA.early_stop ?s = 3"
    by (simp_all add: constant_run_def VEGA_init_def)
  have n: "num_objectives_of ?s [] = ([Probe [0]], Inr 1)"
    by (simp add: num_objectives_of_def constant_run_def VEGA_init_def and_then_def call_def)
  have c: "(if is_gray ?s then BinaryGrayPopulation idle_ga else BinaryPopulation idle_ga) = Inr ()"
    "set_params idle_ga (VEGA.num_individ ?s) (VEGA.gens ?s) (VEGA.input_population ?s) ()
       = Inr ()"
    "VEGAHyperbolaFitness idle_ga (obj_function ?s) (obj_value ?s) (input_data ?s)
       (penalty ?s) (conditions ?s) = Inr Inr"
    "VEGATournamentSelection idle_ga 1 = Inr Inr"
    "OnePointCrossover idle_ga = Inr Inr"
    "BinStringMutation idle_ga (mutation_lvl ?s) = Inr Inr"
    "MultiNewGeneration idle_ga (transfer_parents ?s) = Inr Inr"
    by (simp_all add: idle_ga_def f)
  let ?tr = "setup_events ?s @ initial_events @ concat (replicate 4 generation_events)"
  let ?g = "\<lparr>GaData.num_generations = 10, GaData.children_percent = 19 / 20,
          GaData.early_stop = 3, num_generation = 5, num_generation_no_improve = 4,
          population = Some ()\<rparr> :: (unit, unit) GaData_scheme"
  let ?full = "\<lambda>k. setup_events ?s @ [Fill, Fitness, Update]
              @ concat (replicate k [Selection, Crossover, Mutation, NewGeneration, Fitness, Update])
              @ (if is_print ?s then [PrintBest] else [])"
  note t = optimize_phase_order [where ga = idle_ga and rest = "()" and self = ?s
      and tr = ?tr and r = "Inr ?g" and upd = first_only_update and ops = idle_ops
      and ?g0.0 = "after_init 10 3" and ?tr0.0 = "[]" and xs = "[]"
      and ?tr1.0 = "[Probe [0]]" and n = 1 and ?p0.0 = "()" and ?p1.0 = "()"
      and ff = Inr and sel = Inr and cr = Inr and mu = Inr and ng = Inr]
  from t optimize_idle_3
  have "\<exists>k. prefix ?tr (?full k) \<and> (\<forall>g. Inr ?g = Inr g \<longrightarrow> ?tr = ?full k)"
    by blast
  then have a: "\<exists>k. ?tr = ?full k" by blast
  from t n c
  have "optimize idle_ga () ?s []
        = spec_driver idle_ga
            \<lparr>selection = Inr, cross = Inr, mutation = Inr, new_generation = Inr,
             fitness_func = Inr\<rparr>
            () (is_print ?s)
            (MultiGaData (VEGA.num_generations ?s) (VEGA.children_percent ?s)
               (VEGA.early_stop ?s) ())
            (setup_events ?s)"
    by blast
  then have b: "spec_driver idle_ga idle_ops () False (MultiGaData 10 (19 / 20) 3 ())
        (setup_events ?s) = optimize idle_ga () ?s []"
    by (simp add: f idle_ops_def)
  show ?thesis
    using optimize_idle_3 n b a by (simp add: f)
qed

subsection \<open>The number of objectives\<close>

text \<open>
  C4. \<open>optimize\<close> derives \<open>num_objectives\<close> as follows: when \<open>conditions\<close> is
  supplied, it is the count of \<open>optimize\<close> tags in \<open>conditions\<close>, and the objective
  function is not called; when \<open>conditions\<close> is not supplied, it is the length of the
  sequence returned by the probe call of the objective function.
\<close>

theorem num_objectives_derivation:
  "(conditions self = Some c \<longrightarrow>
      num_objectives_of self tr = (tr, Inr (int (count_list c ''optimize''))))
   \<and> (conditions self = None
        \<and> call1 (obj_function self) (replicate (length (VEGA.gens self)) 0) = Inr (Seq ys) \<longrightarrow>
      num_objectives_of self tr
        = (tr @ [Probe (replicate (length (VEGA.gens self)) 0)], Inr (int (length ys))))"
  by (simp add: num_objectives_of_def and_then_def call_def ret_def)

theorem num_objectives_derivation_witness:
  "num_objectives_of
       ((constant_run 10 None)\<lparr>conditions := Some [''optimize'', ''<='', ''optimize'']\<rparr>) []
     = ([], Inr 2)
   \<and> num_objectives_of (constant_run 10 None) [] = ([Probe [0]], Inr 1)"
proof -
  let ?s = "(constant_run 10 None)\<lparr>conditions := Some [''optimize'', ''<='', ''optimize'']\<rparr>"
  have a: "conditions ?s = Some [''optimize'', ''<='', ''optimize'']" by simp
  have b: "conditions (constant_run 10 None) = None
      \<and> call1 (obj_function (constant_run 10 None))
          (replicate (length (VEGA.gens (constant_run 10 None))) 0) = Inr (Seq [1])"
    by (simp add: constant_run_def VEGA_init_def)
  have g: "VEGA.gens (constant_run 10 None) = [(0, 7, 1)]"
    by (simp add: constant_run_def VEGA_init_def)
  from num_objectives_derivation [of ?s "[''optimize'', ''<='', ''optimize'']" "[]" "[]"]
    num_objectives_derivation [of "constant_run 10 None" "[]" "[]" "[1]"] a b g
  show ?thesis by simp
qed

text \<open>
  C9. When \<open>conditions\<close> is \<open>None\<close>, the first call of \<open>optimize\<close> is the probe
  of the objective function with the single argument \<open>[0]*len(gens)\<close>, before any
  population or other object is constructed, and \<open>optimize\<close> itself makes no other
  call of this kind. Consequently, if the objective function requires the two-argument
  form or returns a scalar, \<open>optimize\<close> raises \<open>TypeError\<close> with the probe as its
  only call: no evolution takes place.
\<close>

theorem probe_before_population:
  assumes "conditions self = None"
  shows "(\<exists>tl r. optimize ga rest self []
             = (Probe (replicate (length (VEGA.gens self)) 0) # tl, r)
           \<and> (\<forall>xs. Probe xs \<notin> set tl))
       \<and> ((\<exists>f. obj_function self = TwoArg f)
            \<or> (\<exists>y. call1 (obj_function self) (replicate (length (VEGA.gens self)) 0)
                     = Inr (Scalar y)) \<longrightarrow>
          optimize ga rest self []
            = ([Probe (replicate (length (VEGA.gens self)) 0)], Inl TypeError))"
proof
  let ?p = "Probe (replicate (length (VEGA.gens self)) 0)"
  obtain tr r where run: "optimize ga rest self [] = (tr, r)"
    by (cases "optimize ga rest self []")
  have "prefix [?p] tr"
    using optimize_after_probe [OF num_objectives_probe [OF assms, of "[]"], of ga rest] run
    by simp
  then obtain tl where tr: "tr = ?p # tl"
    by (auto simp: prefix_def)
  from traces_optimize [of ga rest self] run
  have "\<exists>es. tr = [] @ es
      \<and> (case r of Inr _ \<Rightarrow> es \<in> {complete_run self k | k. True}
          | Inl _ \<Rightarrow> (\<exists>fs\<in>{complete_run self k | k. True}. prefix es fs))"
    unfolding traces_def by blast
  then obtain k where "prefix tr (complete_run self k)"
    by (cases r) auto
  moreover obtain tl' where tl': "complete_run self k = ?p # tl'" "\<forall>xs. Probe xs \<notin> set tl'"
    using no_probe_complete_run [OF assms] by blast
  ultimately have "prefix tl tl'" using tr by simp
  then have "\<forall>xs. Probe xs \<notin> set tl"
    using tl'(2) by (meson set_mono_prefix subsetD)
  then show "\<exists>tl r. optimize ga rest self [] = (?p # tl, r) \<and> (\<forall>xs. Probe xs \<notin> set tl)"
    using run tr by blast
next
  let ?z = "replicate (length (VEGA.gens self)) (0::real)"
  show "(\<exists>f. obj_function self = TwoArg f) \<or> (\<exists>y. call1 (obj_function self) ?z = Inr (Scalar y))
     \<longrightarrow> optimize ga rest self [] = ([Probe ?z], Inl TypeError)"
  proof
    assume "(\<exists>f. obj_function self = TwoArg f) \<or> (\<exists>y. call1 (obj_function self) ?z = Inr (Scalar y))"
    then have "(case call1 (obj_function self) ?z of Inl e \<Rightarrow> Inl e | Inr y \<Rightarrow> len y)
        = Inl TypeError"
      by auto
    then have "num_objectives_of self [] = ([Probe ?z], Inl TypeError)"
      using num_objectives_probe [OF assms, of "[]"] by simp
    then show "optimize ga rest self [] = ([Probe ?z], Inl TypeError)"
      unfolding optimize_def by (rule and_then_Inl)
  qed
qed

theorem probe_before_population_witness:
  "conditions ((constant_run 10 None)\<lparr>obj_function := TwoArg (\<lambda>d xs. Inr (Seq [1]))\<rparr>) = None
   \<and> optimize idle_ga ()
        ((constant_run 10 None)\<lparr>obj_function := TwoArg (\<lambda>d xs. Inr (Seq [1]))\<rparr>) []
      = ([Probe [0]], Inl TypeError)"
proof -
  let ?s = "(constant_run 10 None)\<lparr>obj_function := TwoArg (\<lambda>d xs. Inr (Seq [1]))\<rparr>"
  have c: "conditions ?s = None"
    by (simp add: constant_run_def VEGA_init_def)
  have g: "VEGA.gens ?s = [(0, 7, 1)]"
    by (simp add: constant_run_def VEGA_init_def)
  have f: "\<exists>f. obj_function ?s = TwoArg f" by simp
  from probe_before_population [OF c, of idle_ga "()"] c g f
  show ?thesis by simp
qed

subsection \<open>The counters of GaData\<close>

lemma keeps_countersD:
  assumes "keeps_counters f" and "f g = Inr g'"
  shows "num_generation_no_improve g' = num_generation_no_improve g"
    and "num_generation g' = num_generation g"
    and "GaData.early_stop g' = GaData.early_stop g"
    and "GaData.num_generations g' = GaData.num_generations g"
  using assms unfolding keeps_counters_def by blast+

lemma update_spec_Inr:
  assumes "update_spec is_empty resort improved g = Inr g'"
  shows "num_generation_no_improve g'
           = (if improved g then 0 else num_generation_no_improve g + 1)"
    and "num_generation g' = num_generation g + 1"
    and "GaData.early_stop g' = GaData.early_stop g"
    and "GaData.num_generations g' = GaData.num_generations g"
  using assms
  by (auto simp: update_spec_def split: option.splits if_splits)

lemma generation_counters:
  assumes k: "ops_keep_counters ops"
    and run: "generation (update_spec is_empty resort improved) ops g tr = (tr', Inr g')"
  shows "tr' = tr @ generation_events"
    and "\<exists>g5. num_generation g5 = num_generation g
           \<and> num_generation_no_improve g'
               = (if improved g5 then 0 else num_generation_no_improve g + 1)"
    and "num_generation g' = num_generation g + 1"
    and "GaData.early_stop g' = GaData.early_stop g"
    and "GaData.num_generations g' = GaData.num_generations g"
proof -
  from generation_Inr [OF run] obtain g1 g2 g3 g4 g5 where
    tr: "tr' = tr @ generation_events"
    and s: "selection ops g = Inr g1" "cross ops g1 = Inr g2" "mutation ops g2 = Inr g3"
      "new_generation ops g3 = Inr g4" "fitness_func ops g4 = Inr g5"
    and u: "update_spec is_empty resort improved g5 = Inr g'"
    by blast
  have kk: "keeps_counters (selection ops)" "keeps_counters (cross ops)"
    "keeps_counters (mutation ops)" "keeps_counters (new_generation ops)"
    "keeps_counters (fitness_func ops)"
    using k by (simp_all add: ops_keep_counters_def)
  have c5: "num_generation_no_improve g5 = num_generation_no_improve g"
    "num_generation g5 = num_generation g"
    "GaData.early_stop g5 = GaData.early_stop g"
    "GaData.num_generations g5 = GaData.num_generations g"
    using keeps_countersD [OF kk(1) s(1)] keeps_countersD [OF kk(2) s(2)]
      keeps_countersD [OF kk(3) s(3)] keeps_countersD [OF kk(4) s(4)]
      keeps_countersD [OF kk(5) s(5)]
    by simp_all
  show "tr' = tr @ generation_events" by (rule tr)
  show "\<exists>g5. num_generation g5 = num_generation g
           \<and> num_generation_no_improve g'
               = (if improved g5 then 0 else num_generation_no_improve g + 1)"
    using update_spec_Inr(1) [OF u] c5 by auto
  show "num_generation g' = num_generation g + 1"
    using update_spec_Inr(2) [OF u] c5 by simp
  show "GaData.early_stop g' = GaData.early_stop g"
    using update_spec_Inr(3) [OF u] c5 by simp
  show "GaData.num_generations g' = GaData.num_generations g"
    using update_spec_Inr(4) [OF u] c5 by simp
qed

lemma count_prefix_generation:
  "prefix es generation_events \<Longrightarrow> count_list es Update \<le> 1"
proof -
  assume "prefix es generation_events"
  then obtain zs where z: "generation_events = es @ zs" by (auto simp: prefix_def)
  have "count_list (es @ zs) Update = count_list es Update + count_list zs Update"
    by simp
  then have "count_list generation_events Update = count_list es Update + count_list zs Update"
    by (simp only: z)
  moreover have "count_list generation_events Update = 1"
    by (simp add: generation_events_def)
  ultimately show ?thesis by simp
qed

lemma main_loop_early_stop_bound:
  assumes k: "ops_keep_counters ops"
    and ni: "\<forall>g. 0 < num_generation g \<longrightarrow> \<not> improved g"
    and run: "main_loop (update_spec is_empty resort improved) ops xs g tr = (tr', r)"
    and g: "0 < num_generation g" "0 \<le> num_generation_no_improve g"
      "num_generation_no_improve g \<le> GaData.early_stop g"
  shows "int (count_list tr' Update)
           \<le> int (count_list tr Update) + (GaData.early_stop g + 1 - num_generation_no_improve g)
       \<and> (\<forall>g'. r = Inr g' \<longrightarrow>
             num_generation_no_improve g' \<le> GaData.early_stop g + 1
           \<and> GaData.early_stop g' = GaData.early_stop g)"
  using run g
proof (induction xs arbitrary: g tr)
  case Nil
  then show ?case by (auto simp: ret_def)
next
  case (Cons i rest)
  let ?upd = "update_spec is_empty resort improved"
  let ?F = "\<lambda>g1. if GaData.early_stop g1 < num_generation_no_improve g1 then ret g1
                  else main_loop ?upd ops rest g1"
  have run: "and_then (generation ?upd ops g) ?F tr = (tr', r)"
    using Cons.prems(1) by simp
  from run show ?case
  proof (cases rule: and_then_cases)
    case (fails e)
    then obtain es where "tr' = tr @ es" "prefix es generation_events"
      using generation_prefix by blast
    then have "count_list tr' Update \<le> count_list tr Update + 1"
      using count_prefix_generation [of es] by simp
    then show ?thesis using fails(2) Cons.prems by auto
  next
    case (goes tr1 g1)
    note c = generation_counters [OF k goes(1)]
    obtain g5 where g5: "num_generation g5 = num_generation g"
      "num_generation_no_improve g1
         = (if improved g5 then 0 else num_generation_no_improve g + 1)"
      using c(2) by blast
    have "\<not> improved g5" using ni g5(1) Cons.prems(2) by simp
    then have n1: "num_generation_no_improve g1 = num_generation_no_improve g + 1"
      using g5(2) by simp
    have cnt: "count_list tr1 Update = count_list tr Update + 1"
      using c(1) by (simp add: generation_events_def)
    show ?thesis
    proof (cases "GaData.early_stop g1 < num_generation_no_improve g1")
      case True
      then have "tr' = tr1" "r = Inr g1" using goes(2) by (simp_all add: ret_def)
      then show ?thesis using cnt n1 c(4) Cons.prems by auto
    next
      case False
      then have rec: "main_loop ?upd ops rest g1 tr1 = (tr', r)" using goes(2) by simp
      have "0 < num_generation g1" "0 \<le> num_generation_no_improve g1"
        "num_generation_no_improve g1 \<le> GaData.early_stop g1"
        using c(3) n1 False Cons.prems by simp_all
      from Cons.IH [OF rec this] show ?thesis
        using cnt n1 c(4) by auto
    qed
  qed
qed

lemma main_loop_no_break:
  assumes k: "ops_keep_counters ops"
    and run: "main_loop (update_spec is_empty resort improved) ops xs g tr = (tr', Inr g')"
    and inv: "0 \<le> num_generation g" "num_generation_no_improve g \<le> num_generation g"
      "num_generation g + int (length xs) \<le> GaData.early_stop g"
  shows "tr' = tr @ concat (replicate (length xs) generation_events)
       \<and> num_generation_no_improve g' \<le> num_generation g'
       \<and> num_generation g' = num_generation g + int (length xs)
       \<and> GaData.early_stop g' = GaData.early_stop g"
  using run inv
proof (induction xs arbitrary: g tr)
  case Nil
  then show ?case by (simp add: ret_def)
next
  case (Cons i rest)
  let ?upd = "update_spec is_empty resort improved"
  let ?F = "\<lambda>g1. if GaData.early_stop g1 < num_generation_no_improve g1 then ret g1
                  else main_loop ?upd ops rest g1"
  have run: "and_then (generation ?upd ops g) ?F tr = (tr', Inr g')"
    using Cons.prems(1) by simp
  from run show ?case
  proof (cases rule: and_then_cases)
    case (fails e)
    then show ?thesis by simp
  next
    case (goes tr1 g1)
    note c = generation_counters [OF k goes(1)]
    have n1: "num_generation_no_improve g1 \<le> num_generation g1"
      using c(2,3) Cons.prems(2,3) by (auto split: if_splits)
    have nb: "\<not> GaData.early_stop g1 < num_generation_no_improve g1"
      using n1 c(3,4) Cons.prems(4) by simp
    then have rec: "main_loop ?upd ops rest g1 tr1 = (tr', Inr g')" using goes(2) by simp
    have "0 \<le> num_generation g1" "num_generation g1 + int (length rest) \<le> GaData.early_stop g1"
      using c(3,4) Cons.prems(2,4) by simp_all
    from Cons.IH [OF rec this(1) n1 this(2)] show ?thesis
      using c(1,3,4) by simp
  qed
qed

lemma optimize_Inr:
  assumes "optimize ga rest self [] = (tr, Inr g)"
  shows "\<exists>ff sel cr mu ng pop g1 g2 tr3.
      VEGAHyperbolaFitness ga (obj_function self) (obj_value self) (input_data self)
        (penalty self) (conditions self) = Inr ff
    \<and> (\<exists>n. VEGATournamentSelection ga n = Inr sel)
    \<and> OnePointCrossover ga = Inr cr
    \<and> BinStringMutation ga (mutation_lvl self) = Inr mu
    \<and> MultiNewGeneration ga (transfer_parents self) = Inr ng
    \<and> ff ((MultiGaData (VEGA.num_generations self) (VEGA.children_percent self)
             (VEGA.early_stop self) rest)\<lparr>population := Some pop\<rparr>) = Inr g1
    \<and> update ga g1 = Inr g2
    \<and> main_loop (update ga)
         \<lparr>selection = sel, cross = cr, mutation = mu, new_generation = ng, fitness_func = ff\<rparr>
         [1..GaData.num_generations g2 - 1] g2 (setup_events self @ initial_events)
        = (tr3, Inr g)
    \<and> tr = tr3 @ (if is_print self then [PrintBest] else [])"
  using assms unfolding optimize_def
  apply -
  apply (drule and_then_InrD, elim exE conjE)+
  apply (auto simp: call_def ret_def setup_events_def initial_events_def num_objectives_of_def
      and_then_def split: if_splits option.splits sum.splits)
  apply blast+
  done

lemma count_setup_events: "count_list (setup_events self) Update = 0"
  by (simp add: setup_events_def split: option.splits)

subsection \<open>Early stopping\<close>

text \<open>
  C2, as amended. With \<open>early_stop=3\<close> and an objective function whose value is
  constant, so that no generation after the first improves the best score and
  \<open>GaData.update()\<close> adds one to \<open>num_generation_no_improve\<close> in every generation
  of the loop, the driver loop stops as soon as this counter exceeds 3: it runs at most
  4 generations, and at most 4 generations in a row have no improvement when it ends,
  for every value of \<open>num_generations\<close>.
\<close>

theorem early_stop_bound:
  assumes "ops_keep_counters ops"
    and "\<forall>g. 0 < num_generation g \<longrightarrow> \<not> improved g"
    and "GaData.early_stop g = 3"
    and "0 < num_generation g"
    and "0 \<le> num_generation_no_improve g"
    and "num_generation_no_improve g \<le> 3"
    and "main_loop (update_spec is_empty resort improved) ops [1..N - 1] g tr = (tr', r)"
  shows "count_list tr' Update \<le> count_list tr Update + 4
       \<and> (\<forall>g'. r = Inr g' \<longrightarrow> num_generation_no_improve g' \<le> 4)"
  using main_loop_early_stop_bound [OF assms(1,2,7,4,5)] assms(3,5,6)
  by auto

theorem early_stop_bound_witness:
  "ops_keep_counters idle_ops
   \<and> main_loop first_only_update idle_ops [1..10 - 1] (after_init 10 3) [Fill, Fitness, Update]
     = ([Fill, Fitness, Update] @ concat (replicate 4 generation_events),
        Inr \<lparr>GaData.num_generations = 10, GaData.children_percent = 19 / 20,
          GaData.early_stop = 3, num_generation = 5, num_generation_no_improve = 4,
          population = Some ()\<rparr>)
   \<and> count_list ([Fill, Fitness, Update] @ concat (replicate 4 generation_events)) Update
     \<le> count_list [Fill, Fitness, Update] Update + 4"
proof -
  let ?g = "\<lparr>GaData.num_generations = 10, GaData.children_percent = 19 / 20,
          GaData.early_stop = 3, num_generation = 5, num_generation_no_improve = 4,
          population = Some ()\<rparr> :: (unit, unit) GaData_scheme"
  let ?tr = "[Fill, Fitness, Update] @ concat (replicate 4 generation_events)"
  have ni: "\<forall>g :: (unit, unit) GaData_scheme. 0 < num_generation g \<longrightarrow> \<not> num_generation g = 0"
    by simp
  have st: "GaData.early_stop (after_init 10 3) = 3" "0 < num_generation (after_init 10 3)"
    "0 \<le> num_generation_no_improve (after_init 10 3)"
    "num_generation_no_improve (after_init 10 3) \<le> 3"
    by (simp_all add: after_init_def)
  have run: "main_loop first_only_update idle_ops [1..10 - 1] (after_init 10 3)
      [Fill, Fitness, Update] = (?tr, Inr ?g)"
    using loop_idle_3 [of "[Fill, Fitness, Update]"] by simp
  from early_stop_bound [OF idle_ops_keep ni st run [unfolded first_only_update_def]]
    idle_ops_keep run
  show ?thesis by simp
qed

text \<open>
  The claim as stated, with 3 in place of 4, fails: with \<open>early_stop=3\<close> and
  \<open>num_generations=10\<close> the run on the constant objective evaluates the initial
  generation and 4 generations of the loop, and ends with
  \<open>num_generation_no_improve = 4\<close>.
\<close>

theorem early_stop_counterexample:
  "VEGA.early_stop (constant_run 10 (Some 3)) = 3
   \<and> optimize idle_ga () (constant_run 10 (Some 3)) []
     = (setup_events (constant_run 10 (Some 3)) @ initial_events
          @ concat (replicate 4 generation_events),
        Inr \<lparr>GaData.num_generations = 10, GaData.children_percent = 19 / 20,
          GaData.early_stop = 3, num_generation = 5, num_generation_no_improve = 4,
          population = Some ()\<rparr>)
   \<and> count_list (concat (replicate 4 generation_events)) Update = 4
   \<and> \<not> num_generation_no_improve
         (\<lparr>GaData.num_generations = 10, GaData.children_percent = 19 / 20,
          GaData.early_stop = 3, num_generation = 5, num_generation_no_improve = 4,
          population = Some ()\<rparr> :: (unit, unit) GaData_scheme) \<le> 3"
  using optimize_idle_3
  by (simp add: constant_run_def VEGA_init_def count_generation_events)

text \<open>
  C10. Passing \<open>early_stop=None\<close> to \<open>__init__\<close> replaces the threshold by
  \<open>num_generations\<close>, and \<open>optimize\<close> gives this threshold to \<open>GaData\<close>. The
  break could then fire only with a counter above \<open>num_generations\<close>, which the
  counter, growing by at most one in each generation, does not reach: a run that returns
  has evaluated all \<open>num_generations\<close> generations (one, the initial generation,
  when \<open>num_generations\<close> is less than one), whatever the improvements were.
\<close>

theorem early_stop_None_disabled:
  assumes self: "self = VEGA_init N ni gs f ov idat pen conds gray cp None ipop ts ml tp pr"
    and upd: "update ga = update_spec is_empty resort improved"
    and keep: "ga_keeps_counters ga"
    and run: "optimize ga rest self [] = (tr, Inr g)"
  shows "VEGA.early_stop self = N
       \<and> GaData.early_stop g = N
       \<and> int (count_list tr Update) = max 1 N
       \<and> (0 < N \<longrightarrow> num_generation_no_improve g \<le> N)"
proof -
  have es: "VEGA.early_stop self = N" and ng: "VEGA.num_generations self = N"
    using self by (simp_all add: VEGA_init_def)
  from optimize_Inr [OF run] obtain ff sel cr mu ng pop g1 g2 tr3 where
    c: "VEGAHyperbolaFitness ga (obj_function self) (obj_value self) (input_data self)
        (penalty self) (conditions self) = Inr ff"
      "\<exists>n. VEGATournamentSelection ga n = Inr sel"
      "OnePointCrossover ga = Inr cr"
      "BinStringMutation ga (mutation_lvl self) = Inr mu"
      "MultiNewGeneration ga (transfer_parents self) = Inr ng"
    and f: "ff ((MultiGaData (VEGA.num_generations self) (VEGA.children_percent self)
             (VEGA.early_stop self) rest)\<lparr>population := Some pop\<rparr>) = Inr g1"
    and u: "update ga g1 = Inr g2"
    and l: "main_loop (update ga)
         \<lparr>selection = sel, cross = cr, mutation = mu, new_generation = ng, fitness_func = ff\<rparr>
         [1..GaData.num_generations g2 - 1] g2 (setup_events self @ initial_events)
        = (tr3, Inr g)"
    and t: "tr = tr3 @ (if is_print self then [PrintBest] else [])"
    by blast
  let ?ops = "\<lparr>selection = sel, cross = cr, mutation = mu, new_generation = ng,
              fitness_func = ff\<rparr>"
  have k: "keeps_counters ff" "keeps_counters sel" "keeps_counters cr" "keeps_counters mu"
    "keeps_counters ng"
    using keep c unfolding ga_keeps_counters_def by blast+
  then have ko: "ops_keep_counters ?ops" by (simp add: ops_keep_counters_def)
  have g1: "num_generation_no_improve g1 = 0" "num_generation g1 = 0"
    "GaData.early_stop g1 = N" "GaData.num_generations g1 = N"
    using keeps_countersD [OF k(1) f] es ng by (simp_all add: MultiGaData_def)
  have u': "update_spec is_empty resort improved g1 = Inr g2" using u upd by simp
  have g2: "num_generation_no_improve g2 \<le> 1" "num_generation g2 = 1"
    "GaData.early_stop g2 = N" "GaData.num_generations g2 = N"
    using update_spec_Inr [OF u'] g1 by simp_all
  have l': "main_loop (update_spec is_empty resort improved) ?ops [1..N - 1] g2
              (setup_events self @ initial_events) = (tr3, Inr g)"
    using l upd g2(4) by simp
  have c0: "count_list (setup_events self @ initial_events) Update = 1"
    by (simp add: count_setup_events initial_events_def)
  show ?thesis
  proof (cases "0 < N")
    case True
    have "tr3 = (setup_events self @ initial_events)
               @ concat (replicate (length [1..N - 1]) generation_events)
       \<and> num_generation_no_improve g \<le> num_generation g
       \<and> num_generation g = num_generation g2 + int (length [1..N - 1])
       \<and> GaData.early_stop g = GaData.early_stop g2"
      using ko l'
    proof (rule main_loop_no_break)
      show "0 \<le> num_generation g2" using g2(2) by simp
      show "num_generation_no_improve g2 \<le> num_generation g2" using g2(1,2) by simp
      show "num_generation g2 + int (length [1..N - 1]) \<le> GaData.early_stop g2"
        using g2(2,3) True by simp
    qed
    then have "count_list tr3 Update = 1 + length [1..N - 1]"
      "num_generation_no_improve g \<le> N" "GaData.early_stop g = N"
      using c0 g2 True by (simp_all add: count_generation_events)
    then show ?thesis using es t True by simp
  next
    case False
    then have "[1..N - 1] = []" by simp
    then have "tr3 = setup_events self @ initial_events" "g = g2"
      using l' by (simp_all add: ret_def)
    then show ?thesis using es t c0 g2 False by simp
  qed
qed

theorem early_stop_None_disabled_witness:
  "ga_keeps_counters idle_ga
   \<and> optimize idle_ga () (constant_run 10 None) []
     = (setup_events (constant_run 10 None) @ initial_events
          @ concat (replicate 9 generation_events),
        Inr \<lparr>GaData.num_generations = 10, GaData.children_percent = 19 / 20,
          GaData.early_stop = 10, num_generation = 10, num_generation_no_improve = 9,
          population = Some ()\<rparr>)
   \<and> VEGA.early_stop (constant_run 10 None) = 10
   \<and> int (count_list (setup_events (constant_run 10 None) @ initial_events
          @ concat (replicate 9 generation_events)) Update) = max 1 10"
proof -
  have s: "constant_run 10 None
      = VEGA_init 10 4 [(0, 7, 1)] (OneArg (\<lambda>xs. Inr (Seq [1]))) None None None None False
          (19 / 20) None None 5 (Inl ''normal'') ''best'' False"
    by (simp add: constant_run_def)
  have u: "update idle_ga
      = update_spec (\<lambda>p. False) (\<lambda>p. p) (\<lambda>g. num_generation g = 0)"
    by (simp add: idle_ga_def first_only_update_def)
  from early_stop_None_disabled [OF s u idle_ga_keeps optimize_idle_10]
    idle_ga_keeps optimize_idle_10
  show ?thesis by simp
qed

end
